theory Spec2Isabelle
  imports Main "HOL-Library.Sublist"
begin

section \<open>Data model\<close>

text \<open>
  The structs of package \<open>get\<close> that \<open>download\<close>, \<open>downloadPackage\<close> and \<open>Get\<close> read
  and write. Only the fields those three functions touch are kept. A Go pointer that may
  be nil is an \<open>option\<close>; a Go \<open>map\<close> is a partial function, except
  \<open>downloadCache\<close> (a \<open>map[string]bool\<close> read with the zero value \<open>false\<close> for a
  missing key), which is a total function into \<open>bool\<close>.
\<close>

record PackageError =
  ImportStack :: "string list"
  Err :: string
  Hard :: bool

record Package =
  ImportPath :: string
  Dir :: string
  Standard :: bool
  Imports :: "string list"
  Error :: "PackageError option"
  Build_Imports :: "string list"
  Build_SrcRoot :: string
  Build_Root :: string
  Build_PkgRoot :: string

record repoRoot =
  repo :: string
  root :: string
  dir :: string
  exists :: bool

text \<open>
  Every call the code makes on a collaborator that acts on the world outside the Getter
  is recorded, in order, in a history. The collaborators themselves are parameters
  (record \<open>env\<close> below) and may answer differently as the history grows.
\<close>

datatype event =
    EvLoad string string bool
  | EvResolve string bool
  | EvMkdirAll string
  | EvSend string
  | EvCreate repoRoot
  | EvUpdate repoRoot

record getter =
  packageCache :: "string \<rightharpoonup> Package"
  downloadCache :: "string \<Rightarrow> bool"
  downloadRootCache :: "string \<rightharpoonup> repoRoot"
  repoPackages :: "string \<rightharpoonup> repoRoot"
  trace :: "event list"

text \<open>\<open>New\<close>: every cache is made empty.\<close>

definition New :: getter where
  "New = \<lparr> packageCache = Map.empty, downloadCache = (\<lambda>_. False),
           downloadRootCache = Map.empty, repoPackages = Map.empty, trace = [] \<rparr>"

text \<open>
  The errors \<open>downloadPackage\<close> returns: one constructor for each \<open>fmt.Errorf\<close> of
  the function, and \<open>External\<close> for an error handed back by a collaborator (the
  resolvers, \<open>MkdirAll\<close>, \<open>create\<close>, \<open>download\<close>), carrying its message.
\<close>

datatype dl_error =
    External string
  | InsecureProtocol string
  | GopathNotSet
  | GopathIsGoroot
  | GopathIsAGoroot string
  | PathDisagreement string string
  | ExistsButNoRepo string

text \<open>
  \<open>err.Error()\<close>: the message of each error. \<open>gopath_help\<close> is the common ending
  of the three configuration messages, with its two apostrophes.
\<close>

definition gopath_help :: string where
  "gopath_help = '' For more details see: '' @ [CHR 0x27] @ ''go help gopath'' @ [CHR 0x27]"

fun Error_string :: "dl_error \<Rightarrow> string" where
  "Error_string (External m) = m"
| "Error_string (InsecureProtocol r) = ''cannot download, '' @ r @ '' uses insecure protocol''"
| "Error_string GopathNotSet =
     ''cannot download, $GOPATH not set.'' @ gopath_help"
| "Error_string GopathIsGoroot =
     ''cannot download, $GOPATH must not be set to $GOROOT.'' @ gopath_help"
| "Error_string (GopathIsAGoroot d) =
     ''cannot download, '' @ d @ '' is a GOROOT, not a GOPATH.'' @ gopath_help"
| "Error_string (PathDisagreement d e) =
     ''path disagreement, calculated '' @ d @ '', expected '' @ e"
| "Error_string (ExistsButNoRepo d) = d @ '' exists but repo does not''"

text \<open>
  A Go function either returns (\<open>nil\<close> or an error) or panics. The explicit
  \<open>panic("root exists")\<close>, a nil pointer dereference and a slice expression out of
  range are the panics of this code.
\<close>

datatype panic = RootExists | NilDereference | SliceBounds

datatype 'e outcome = Ok | Failed 'e | Panicked panic

text \<open>
  The collaborators, none of which is defined in the two source files: the package
  loader, the vendoring helpers, the repository backend, the session's filesystem, the
  progress sink, the build context and the \<open>path/filepath\<close> functions. Each one that
  can depend on the world takes the history of calls so far. A Go result pair
  \<open>(root, err)\<close> is a pair of options.
\<close>

record env =
  LoadImport :: "event list \<Rightarrow> (string \<rightharpoonup> Package) \<Rightarrow> string \<Rightarrow> string \<Rightarrow> Package option
                  \<Rightarrow> string list \<Rightarrow> bool \<Rightarrow> Package \<times> (string \<rightharpoonup> Package)"
  ClearPackageCachePartial :: "(string \<rightharpoonup> Package) \<Rightarrow> string list \<Rightarrow> (string \<rightharpoonup> Package)"
  FindVendor :: "string \<Rightarrow> nat option"
  VendoredImportPath :: "Package \<Rightarrow> string \<Rightarrow> string"
  vcsFromDir :: "event list \<Rightarrow> string \<Rightarrow> string \<Rightarrow> repoRoot option \<times> string option"
  repoRootForImportPath :: "event list \<Rightarrow> string \<Rightarrow> bool \<Rightarrow> repoRoot option \<times> string option"
  isSecure :: "string \<Rightarrow> bool"
  Stat_ok :: "event list \<Rightarrow> string \<Rightarrow> bool"
  MkdirAll :: "event list \<Rightarrow> string \<Rightarrow> string option"
  create :: "event list \<Rightarrow> repoRoot \<Rightarrow> string option"
  update_checkout :: "event list \<Rightarrow> repoRoot \<Rightarrow> string option"
  send_set :: bool
  GOPATH_list :: "string list"
  GOROOT :: string
  filepath_Clean :: "string \<Rightarrow> string"
  filepath_Join :: "string \<Rightarrow> string \<Rightarrow> string"
  filepath_FromSlash :: "string \<Rightarrow> string"
  filepath_Split_dir :: "string \<Rightarrow> string"

definition log_event :: "event \<Rightarrow> getter \<Rightarrow> getter" where
  "log_event e g = g\<lparr>trace := trace g @ [e]\<rparr>"

section \<open>The import stack\<close>

text \<open>
  Modelled from the spec: the type \<open>ImportStack\<close> and its methods \<open>Push\<close>, \<open>Pop\<close>
  and \<open>Copy\<close> are not in the source files. The spec describes an ordered sequence of
  import paths, one entry pushed before a download attempt and popped after it: a list
  that grows and shrinks at its end.
\<close>

definition Push :: "string list \<Rightarrow> string \<Rightarrow> string list" where
  "Push stk p = stk @ [p]"

definition Pop :: "string list \<Rightarrow> string list" where
  "Pop stk = butlast stk"

definition Copy :: "string list \<Rightarrow> string list" where
  "Copy stk = stk"

section \<open>downloadPackage\<close>

text \<open>
  Lines 143 to 156: the repository root comes from the directory when the package has a
  source root, from the import path otherwise (a network lookup, recorded in the
  history). An error of the resolver is returned; a nil root without an error is
  dereferenced at line 157.
\<close>

definition resolve_root ::
  "env \<Rightarrow> Package \<Rightarrow> bool \<Rightarrow> getter \<Rightarrow> (dl_error outcome + repoRoot) \<times> getter" where
  "resolve_root E p insecure g =
     (if Build_SrcRoot p \<noteq> [] then
        (case vcsFromDir E (trace g) (Dir p) (Build_SrcRoot p) of
           (_, Some e) \<Rightarrow> (Inl (Failed (External e)), g)
         | (None, None) \<Rightarrow> (Inl (Panicked NilDereference), g)
         | (Some r, None) \<Rightarrow> (Inr r, g))
      else
        (let g1 = log_event (EvResolve (ImportPath p) insecure) g in
         case repoRootForImportPath E (trace g) (ImportPath p) insecure of
           (_, Some e) \<Rightarrow> (Inl (Failed (External e)), g1)
         | (None, None) \<Rightarrow> (Inl (Panicked NilDereference), g1)
         | (Some r, None) \<Rightarrow> (Inr r, g1)))"

text \<open>
  Lines 161 to 177: a package with no source root is placed in the first directory of
  \<open>$GOPATH\<close>, after three checks of the configuration.
\<close>

definition place_in_gopath :: "env \<Rightarrow> Package \<Rightarrow> getter \<Rightarrow> dl_error + Package" where
  "place_in_gopath E p g =
     (if Build_SrcRoot p = [] then
        (case GOPATH_list E of
           [] \<Rightarrow> Inl GopathNotSet
         | d # _ \<Rightarrow>
             if filepath_Clean E d = filepath_Clean E (GOROOT E) then Inl GopathIsGoroot
             else if Stat_ok E (trace g) (filepath_Join E d ''src/cmd/go/alldocs.go'')
               then Inl (GopathIsAGoroot d)
             else Inr (p\<lparr>Build_Root := d,
                         Build_SrcRoot := filepath_Join E d ''src'',
                         Build_PkgRoot := filepath_Join E d ''pkg''\<rparr>))
      else Inr p)"

text \<open>
  Lines 143 to 183 together: everything up to the point where the root carries its
  local directory. The result is the error or panic that ended the call, or the root,
  the package (with its workspace fields filled in) and the state.
\<close>

definition locate_root ::
  "env \<Rightarrow> Package \<Rightarrow> bool \<Rightarrow> getter \<Rightarrow> (dl_error outcome + repoRoot \<times> Package) \<times> getter" where
  "locate_root E p insecure g =
     (case resolve_root E p insecure g of
        (Inl out, g1) \<Rightarrow> (Inl out, g1)
      | (Inr r, g1) \<Rightarrow>
          if \<not> isSecure E (repo r) \<and> \<not> insecure then (Inl (Failed (InsecureProtocol (repo r))), g1)
          else
            (case place_in_gopath E p g1 of
               Inl e \<Rightarrow> (Inl (Failed e), g1)
             | Inr p1 \<Rightarrow>
                 (let d = filepath_Join E (Build_SrcRoot p1) (filepath_FromSlash E (root r)) in
                  if dir r = [] then (Inr (r\<lparr>dir := d\<rparr>, p1), g1)
                  else if dir r \<noteq> d then (Inl (Failed (PathDisagreement d (dir r))), g1)
                  else (Inr (r, p1), g1))))"

text \<open>
  Lines 193 to 214: the fresh checkout. \<open>Stat\<close> succeeding is an error; the parent
  directory is made, the progress message is sent when a sink is set, and the backend's
  \<open>create\<close> runs.
\<close>

definition checkout_new :: "env \<Rightarrow> repoRoot \<Rightarrow> getter \<Rightarrow> dl_error outcome \<times> getter" where
  "checkout_new E r g =
     (if Stat_ok E (trace g) (dir r) then (Failed (ExistsButNoRepo (dir r)), g)
      else
        (let parent = filepath_Split_dir E (dir r);
             g1 = log_event (EvMkdirAll parent) g in
         case MkdirAll E (trace g) parent of
           Some e \<Rightarrow> (Failed (External e), g1)
         | None \<Rightarrow>
             (let g2 = (if send_set E then log_event (EvSend (root r)) g1 else g1);
                  g3 = log_event (EvCreate r) g2 in
              case create E (trace g2) r of
                Some e \<Rightarrow> (Failed (External e), g3)
              | None \<Rightarrow> (Ok, g3))))"

text \<open>
  Lines 219 to 225, the statements written after \<open>panic("root exists")\<close>: the progress
  message and the backend's \<open>download\<close> (here \<open>update_checkout\<close>, as \<open>download\<close> names
  the walker).
\<close>

definition update_existing :: "env \<Rightarrow> repoRoot \<Rightarrow> getter \<Rightarrow> dl_error outcome \<times> getter" where
  "update_existing E r g =
     (let g1 = (if send_set E then log_event (EvSend (root r)) g else g);
          g2 = log_event (EvUpdate r) g1 in
      case update_checkout E (trace g1) r of
        Some e \<Rightarrow> (Failed (External e), g2)
      | None \<Rightarrow> (Ok, g2))"

text \<open>
  Sequencing: the second statement runs only when the first one completed normally; an
  error return or a panic ends the function there.
\<close>

definition and_then ::
  "'e outcome \<times> getter \<Rightarrow> (getter \<Rightarrow> 'e outcome \<times> getter) \<Rightarrow> 'e outcome \<times> getter" where
  "and_then r k = (case r of (Ok, g) \<Rightarrow> k g | (out, g) \<Rightarrow> (out, g))"

text \<open>
  The whole function. The package is returned too, since the call writes its workspace
  fields through the pointer. The root is stored by value: the one write through the
  root pointer (line 180) happens before the root is stored in either map.
\<close>

definition downloadPackage ::
  "env \<Rightarrow> Package \<Rightarrow> bool \<Rightarrow> bool \<Rightarrow> getter \<Rightarrow> dl_error outcome \<times> Package \<times> getter" where
  "downloadPackage E p update insecure g =
     (case locate_root E p insecure g of
        (Inl out, g1) \<Rightarrow> (out, p, g1)
      | (Inr (r, p1), g1) \<Rightarrow>
          (let g2 = g1\<lparr>repoPackages := (repoPackages g1)(ImportPath p1 \<mapsto> r)\<rparr> in
           if downloadRootCache g2 (dir r) \<noteq> None then (Ok, p1, g2)
           else
             (let g3 = g2\<lparr>downloadRootCache := (downloadRootCache g2)(dir r \<mapsto> r)\<rparr>;
                  (out, g4) =
                    (if \<not> exists r then checkout_new E r g3
                     else and_then (Panicked RootExists, g3) (update_existing E r))
              in (out, p1, g4))))"

section \<open>download\<close>

text \<open>
  \<open>load1\<close>, the closure at the head of \<open>download\<close>: the loader is called from the
  synthetic root \<open>/\<close> without a parent, from the parent's directory otherwise. The
  loader owns \<open>packageCache\<close>. It receives the stack and pushes its own entry for the
  time of the load (the comment at lines 70 to 72); its interface in the spec yields the
  package alone, so the stack is passed to it by value and comes back as it was.
\<close>

definition load1 ::
  "env \<Rightarrow> Package option \<Rightarrow> string list \<Rightarrow> string \<Rightarrow> bool \<Rightarrow> getter \<Rightarrow> Package \<times> getter" where
  "load1 E parent stk path useVendor g =
     (case parent of
        None \<Rightarrow>
          (let (p, pc) = LoadImport E (trace g) (packageCache g) path ''/'' None stk False
           in (p, log_event (EvLoad path ''/'' False) (g\<lparr>packageCache := pc\<rparr>)))
      | Some par \<Rightarrow>
          (let (p, pc) = LoadImport E (trace g) (packageCache g) path (Dir par) (Some par) stk useVendor
           in (p, log_event (EvLoad path (Dir par) useVendor) (g\<lparr>packageCache := pc\<rparr>))))"

text \<open>Line 19: \<open>p.Error != nil && p.Error.Hard\<close>.\<close>

definition hard_error :: "Package \<Rightarrow> PackageError option" where
  "hard_error p = (case Error p of Some e \<Rightarrow> (if Hard e then Some e else None) | None \<Rightarrow> None)"

type_synonym walk_result = "(PackageError outcome \<times> string list \<times> getter) option"

text \<open>
  Lines 50 to 86: the package is fetched when it has no directory or \<open>update\<close> is set,
  and loaded again after a successful fetch; otherwise its repository is looked up from
  its directory and remembered. The result is \<open>Inl\<close> when \<open>download\<close> ends here, and
  the list \<open>pkgs\<close> otherwise. A panic of \<open>downloadPackage\<close> unwinds past the
  \<open>Pop\<close>. The fields \<open>downloadPackage\<close> writes into the package reach the cache only
  through the pointer, which a value does not show; on success the entry is cleared and
  the package loaded afresh.
\<close>

definition fetch_step ::
  "env \<Rightarrow> Package \<Rightarrow> string \<Rightarrow> Package option \<Rightarrow> string list \<Rightarrow> bool \<Rightarrow> bool \<Rightarrow> getter
     \<Rightarrow> (PackageError outcome + Package list) \<times> string list \<times> getter" where
  "fetch_step E p path parent stk update insecure g =
     (if Dir p = [] \<or> update then
        (let stk1 = Push stk path in
         case downloadPackage E p update insecure g of
           (Failed err, _, g1) \<Rightarrow>
             (let perr = \<lparr>ImportStack = Copy stk1, Err = Error_string err, Hard = False\<rparr>
              in (Inl (Failed perr), Pop stk1, g1))
         | (Panicked pn, _, g1) \<Rightarrow> (Inl (Panicked pn), stk1, g1)
         | (Ok, _, g1) \<Rightarrow>
             (let stk2 = Pop stk1;
                  g2 = g1\<lparr>packageCache := ClearPackageCachePartial E (packageCache g1) [path]\<rparr>;
                  (p', g3) = load1 E parent stk2 path False g2
              in case Error p' of
                   Some e \<Rightarrow> (Inl (Failed e), stk2, g3)
                 | None \<Rightarrow> (Inr [p'], stk2, g3)))
      else
        (case fst (vcsFromDir E (trace g) (Dir p) (Build_SrcRoot p)) of
           Some r \<Rightarrow> (Inr [p], stk, g\<lparr>repoPackages := (repoPackages g)(ImportPath p \<mapsto> r)\<rparr>)
         | None \<Rightarrow> (Inr [p], stk, g)))"

text \<open>
  Lines 97 to 128, the loop \<open>for i, path := range imports\<close> with \<open>imports = p.Imports\<close>:
  it runs over the pairs of index and element. \<open>rec\<close> is the recursive call of
  \<open>download\<close>. The slice expression \<open>path[j+len("vendor/"):]\<close> panics when it starts
  beyond the end of \<open>path\<close>.
\<close>

fun walk_imports ::
  "env \<Rightarrow> (string \<Rightarrow> Package \<Rightarrow> string list \<Rightarrow> getter \<Rightarrow> walk_result) \<Rightarrow> Package
     \<Rightarrow> (nat \<times> string) list \<Rightarrow> string list \<Rightarrow> getter \<Rightarrow> walk_result" where
  "walk_imports E rec p [] stk g = Some (Ok, stk, g)"
| "walk_imports E rec p ((i, path) # rest) stk g =
     (if path = ''C'' then walk_imports E rec p rest stk g
      else
        (let orig = (if i < length (Build_Imports p) then Build_Imports p ! i else path) in
         case FindVendor E orig of
           Some j \<Rightarrow>
             (let stk1 = Push stk path in
              if length path < j + length ''vendor/'' then Some (Panicked SliceBounds, stk1, g)
              else
                (let err = \<lparr>ImportStack = Copy stk1,
                            Err = ''must be imported as '' @ drop (j + length ''vendor/'') path,
                            Hard = False\<rparr>
                 in Some (Failed err, Pop stk1, g)))
         | None \<Rightarrow>
             (let path1 = (if i \<ge> length (Imports p) then VendoredImportPath E p path else path) in
              case rec path1 p stk g of
                None \<Rightarrow> None
              | Some (Ok, stk2, g2) \<Rightarrow> walk_imports E rec p rest stk2 g2
              | Some (out, stk2, g2) \<Rightarrow> Some (out, stk2, g2))))"

text \<open>Lines 95 to 129, the outer loop \<open>for _, p := range pkgs\<close>.\<close>

fun walk_pkgs ::
  "env \<Rightarrow> (string \<Rightarrow> Package \<Rightarrow> string list \<Rightarrow> getter \<Rightarrow> walk_result) \<Rightarrow> Package list
     \<Rightarrow> string list \<Rightarrow> getter \<Rightarrow> walk_result" where
  "walk_pkgs E rec [] stk g = Some (Ok, stk, g)"
| "walk_pkgs E rec (p # ps) stk g =
     (case walk_imports E rec p (enumerate 0 (Imports p)) stk g of
        None \<Rightarrow> None
      | Some (Ok, stk1, g1) \<Rightarrow> walk_pkgs E rec ps stk1 g1
      | Some (out, stk1, g1) \<Rightarrow> Some (out, stk1, g1))"

text \<open>
  \<open>download\<close>. The import graph the loader describes need not be finite, so the
  recursion is bounded by fuel: \<open>None\<close> is the walk that did not end within it.
\<close>

fun download ::
  "nat \<Rightarrow> env \<Rightarrow> string \<Rightarrow> Package option \<Rightarrow> string list \<Rightarrow> bool \<Rightarrow> bool \<Rightarrow> bool \<Rightarrow> getter
     \<Rightarrow> walk_result" where
  "download 0 E path parent stk update insecure single g = None"
| "download (Suc n) E path parent stk update insecure single g =
     (let (p, g1) = load1 E parent stk path False g in
      case hard_error p of
        Some e \<Rightarrow> Some (Failed e, stk, g1)
      | None \<Rightarrow>
          (let path = ImportPath p in
           if Standard p then Some (Ok, stk, g1)
           else if downloadCache g1 path then Some (Ok, stk, g1)
           else
             (let g2 = (if \<not> single then g1\<lparr>downloadCache := (downloadCache g1)(path := True)\<rparr>
                        else g1) in
              case fetch_step E p path parent stk update insecure g2 of
                (Inl out, stk3, g3) \<Rightarrow> Some (out, stk3, g3)
              | (Inr pkgs, stk3, g3) \<Rightarrow>
                  if single then Some (Ok, stk3, g3)
                  else walk_pkgs E (\<lambda>path' p' stk' g'.
                         download n E path' (Some p') stk' update insecure False g') pkgs stk3 g3)))"

section \<open>Get and the hint pass\<close>

text \<open>
  \<open>hints\<close> is written once for each completed call of \<open>processPath\<close> on a package
  outside the standard library and never read by it; the writes are kept in order, the
  latest first. \<open>urls\<close> is a Go map used as a set: a list without repetitions, in one
  of the orders the iteration over the map may give.
\<close>

type_synonym hint_writes = "(string \<times> string list) list"

text \<open>
  Lines 56 to 91, with the loop over the imports at lines 66 to 71 as
  \<open>collect_urls\<close>. \<open>p.Standard\<close> at line 61 is read before \<open>p\<close> is compared
  with nil at lines 65 and 77: a path with no entry in \<open>packageCache\<close> is a nil
  pointer dereference. The recursion has no bound of its own, hence the fuel, which
  each call of \<open>processPath\<close> from the loop uses up by one.
\<close>

fun processPath ::
  "nat \<Rightarrow> env \<Rightarrow> getter \<Rightarrow> string \<Rightarrow> hint_writes \<Rightarrow> (panic + string list \<times> hint_writes) option"
and collect_urls ::
  "nat \<Rightarrow> env \<Rightarrow> getter \<Rightarrow> string list \<Rightarrow> string list \<Rightarrow> hint_writes
     \<Rightarrow> (panic + string list \<times> hint_writes) option" where
  "processPath 0 E g path hints = None"
| "processPath (Suc n) E g path hints =
     (let p = packageCache g path in
      case p of
        None \<Rightarrow> Some (Inl NilDereference)
      | Some pk \<Rightarrow>
          if Standard pk then Some (Inr ([], hints))
          else
            (case (if p \<noteq> None then collect_urls n E g (Imports pk) [] hints
                   else Some (Inr ([], hints))) of
               None \<Rightarrow> None
             | Some (Inl pn) \<Rightarrow> Some (Inl pn)
             | Some (Inr (urls, hints1)) \<Rightarrow>
                 (let urls1 =
                    (case repoPackages g path of
                       Some r \<Rightarrow> List.insert (repo r) urls
                     | None \<Rightarrow>
                         if p \<noteq> None then
                           (case fst (vcsFromDir E (trace g) (Dir pk) (Build_SrcRoot pk)) of
                              Some r \<Rightarrow> List.insert (repo r) urls
                            | None \<Rightarrow> urls)
                         else urls)
                  in Some (Inr (urls1, (path, urls1) # hints1)))))"
| "collect_urls n E g [] urls hints = Some (Inr (urls, hints))"
| "collect_urls n E g (imp # imps) urls hints =
     (case processPath n E g imp hints of
        None \<Rightarrow> None
      | Some (Inl pn) \<Rightarrow> Some (Inl pn)
      | Some (Inr (urlsForImport, hints1)) \<Rightarrow>
          collect_urls n E g imps (fold List.insert urlsForImport urls) hints1)"

text \<open>
  \<open>Get\<close>: the walk from an empty stack, then the hint pass unless \<open>single\<close> is set.
  The second component is the map handed to \<open>SetHints\<close>.
\<close>

definition Get ::
  "nat \<Rightarrow> env \<Rightarrow> string \<Rightarrow> bool \<Rightarrow> bool \<Rightarrow> bool \<Rightarrow> getter
     \<Rightarrow> (PackageError outcome \<times> hint_writes option \<times> getter) option" where
  "Get n E path update insecure single g =
     (case download n E path None [] update insecure single g of
        None \<Rightarrow> None
      | Some (Ok, _, g1) \<Rightarrow>
          if single then Some (Ok, None, g1)
          else
            (case processPath n E g1 path [] of
               None \<Rightarrow> None
             | Some (Inl pn) \<Rightarrow> Some (Panicked pn, None, g1)
             | Some (Inr (_, hints)) \<Rightarrow> Some (Ok, Some hints, g1))
      | Some (out, _, g1) \<Rightarrow> Some (out, None, g1))"

section \<open>Observations on the history\<close>

text \<open>The directories handed to the backend's checkout operation, in order.\<close>

fun created :: "event list \<Rightarrow> string list" where
  "created [] = []"
| "created (EvCreate r # es) = dir r # created es"
| "created (_ # es) = created es"

text \<open>The calls that change the filesystem: \<open>MkdirAll\<close> and the two backend operations.\<close>

fun fs_mutation :: "event \<Rightarrow> bool" where
  "fs_mutation (EvMkdirAll _) = True"
| "fs_mutation (EvCreate _) = True"
| "fs_mutation (EvUpdate _) = True"
| "fs_mutation _ = False"

fun is_update :: "event \<Rightarrow> bool" where
  "is_update (EvUpdate _) = True"
| "is_update _ = False"

text \<open>A call that returned, with \<open>nil\<close> or with an error, as opposed to one that panicked.\<close>

fun returned :: "'e outcome \<Rightarrow> bool" where
  "returned (Panicked _) = False"
| "returned _ = True"

text \<open>
  The states one Getter goes through: from a state, any call of \<open>Get\<close>, of the walker
  or of the orchestrator that comes back (also with an error or a panic) gives the next
  one. A run of a Getter instance starts from \<open>New\<close>.
\<close>

inductive reaches :: "env \<Rightarrow> getter \<Rightarrow> getter \<Rightarrow> bool" for E :: env and g0 :: getter where
  reaches_refl: "reaches E g0 g0"
| reaches_Get:
    "reaches E g0 g \<Longrightarrow> Get n E path update insecure single g = Some (out, h, g')
       \<Longrightarrow> reaches E g0 g'"
| reaches_download:
    "reaches E g0 g \<Longrightarrow> download n E path parent stk update insecure single g = Some (out, stk', g')
       \<Longrightarrow> reaches E g0 g'"
| reaches_downloadPackage:
    "reaches E g0 g \<Longrightarrow> downloadPackage E p update insecure g = (dout, p', g')
       \<Longrightarrow> reaches E g0 g'"

text \<open>
  What ties the checkouts to \<open>downloadRootCache\<close>: no directory was checked out twice,
  and every directory checked out is a key of the cache.
\<close>

definition root_inv :: "getter \<Rightarrow> bool" where
  "root_inv g = (distinct (created (trace g)) \<and> set (created (trace g)) \<subseteq> dom (downloadRootCache g))"

text \<open>
  A result of \<open>processPath\<close> with the writes of an earlier part of the pass put
  behind its own.
\<close>

definition carry_hints ::
  "hint_writes \<Rightarrow> (panic + string list \<times> hint_writes) option
     \<Rightarrow> (panic + string list \<times> hint_writes) option" where
  "carry_hints h r =
     (case r of
        None \<Rightarrow> None
      | Some (Inl pn) \<Rightarrow> Some (Inl pn)
      | Some (Inr (urls, w)) \<Rightarrow> Some (Inr (urls, w @ h)))"

section \<open>Fake collaborators\<close>

text \<open>
  Collaborators for running the code on concrete inputs, in the manner of a test's
  fakes. The workspace is \<open>/w\<close>. Every import path \<open>x\<close> is the root of its own
  repository, at \<open>https://x\<close> (at \<open>http://u\<close> for \<open>u\<close>), checked out to
  \<open>/w/src/x\<close>. A package is found once its repository has been checked out; before
  that the loader reports a soft error and no directory. \<open>./x\<close> is a second spelling
  of \<open>x\<close>; \<open>fmt\<close> is in the standard library; \<open>e\<close> holds no Go files and \<open>g\<close>
  uses cgo.
\<close>

definition fake_canon :: "string \<Rightarrow> string" where
  "fake_canon path = (if take 2 path = ''./'' then drop 2 path else path)"

definition fake_imports :: "string \<Rightarrow> string list" where
  "fake_imports ip =
     (if ip = ''e'' then [''d'']
      else if ip = ''g'' then [''C'']
      else [])"

definition fake_load :: "event list \<Rightarrow> string \<Rightarrow> Package" where
  "fake_load h path =
     (let ip = fake_canon path;
          d = ''/w/src/'' @ ip;
          present = (d \<in> set (created h))
      in \<lparr> ImportPath = ip,
           Dir = (if present then d else []),
           Standard = (ip = ''fmt''),
           Imports = (if present then fake_imports ip else []),
           Error = (if ip = ''fmt'' then None
                    else if \<not> present then
                      Some \<lparr>ImportStack = [], Err = ''cannot find package'', Hard = False\<rparr>
                    else if ip = ''e'' then
                      Some \<lparr>ImportStack = [], Err = ''no Go files'', Hard = False\<rparr>
                    else None),
           Build_Imports = (if present then fake_imports ip else []),
           Build_SrcRoot = (if present then ''/w/src'' else []),
           Build_Root = (if present then ''/w'' else []),
           Build_PkgRoot = (if present then ''/w/pkg'' else []) \<rparr>)"

definition found_root :: "string \<Rightarrow> repoRoot" where
  "found_root d = \<lparr>repo = ''https://'' @ drop 7 d, root = drop 7 d, dir = d, exists = True\<rparr>"

definition fake_env :: env where
  "fake_env =
     \<lparr> LoadImport = (\<lambda>h pc path srcDir parent stk useVendor.
         (fake_load h path, pc(fake_canon path \<mapsto> fake_load h path))),
       ClearPackageCachePartial = (\<lambda>pc args k. if k \<in> set args then None else pc k),
       FindVendor = (\<lambda>s. if take 7 s = ''vendor/'' then Some 0 else None),
       VendoredImportPath = (\<lambda>p path. ImportPath p @ ''/vendor/'' @ path),
       vcsFromDir = (\<lambda>h d src.
         if d \<in> set (created h) then (Some (found_root d), None)
         else (None, Some ''no version control'')),
       repoRootForImportPath = (\<lambda>h ip insecure.
         (Some \<lparr>repo = (if ip = ''u'' then ''http://u'' else ''https://'' @ ip),
                root = ip, dir = [], exists = False\<rparr>, None)),
       isSecure = (\<lambda>u. take 8 u = ''https://''),
       Stat_ok = (\<lambda>h d. d \<in> set (created h)),
       MkdirAll = (\<lambda>h d. None),
       create = (\<lambda>h r. None),
       update_checkout = (\<lambda>h r. None),
       send_set = True,
       GOPATH_list = [''/w''],
       GOROOT = ''/goroot'',
       filepath_Clean = (\<lambda>s. s),
       filepath_Join = (\<lambda>a b. a @ ''/'' @ b),
       filepath_FromSlash = (\<lambda>s. s),
       filepath_Split_dir = (\<lambda>s. rev (dropWhile (\<lambda>c. c \<noteq> CHR ''/'') (rev s))) \<rparr>"

text \<open>The Getter after a walk from \<open>d\<close>, which checks \<open>d\<close> out.\<close>

definition fetched_d :: getter where
  "fetched_d =
     (case download 1 fake_env ''d'' None [] False False False New of
        Some (_, _, g) \<Rightarrow> g
      | None \<Rightarrow> New)"

text \<open>
  A second world, in which every package was checked out before the Getter was made:
  the loader finds each package in its directory and the backend finds the checkout
  there. \<open>x\<close> imports \<open>y\<close>, an import beyond its (empty) build-declared list, and
  carries a soft error; \<open>z\<close> carries a hard error.
\<close>

definition local_pkg :: "string \<Rightarrow> Package" where
  "local_pkg ip =
     \<lparr> ImportPath = ip, Dir = ''/w/src/'' @ ip, Standard = False,
       Imports = (if ip = ''x'' then [''y''] else []),
       Error = (if ip = ''x''
                then Some \<lparr>ImportStack = [], Err = ''some files excluded'', Hard = False\<rparr>
                else if ip = ''z''
                then Some \<lparr>ImportStack = [], Err = ''malformed import path'', Hard = True\<rparr>
                else None),
       Build_Imports = [], Build_SrcRoot = ''/w/src'', Build_Root = ''/w'',
       Build_PkgRoot = ''/w/pkg'' \<rparr>"

definition local_env :: env where
  "local_env = fake_env
     \<lparr> LoadImport := (\<lambda>h pc path srcDir parent stk useVendor.
         (local_pkg path, pc(path \<mapsto> local_pkg path))),
       vcsFromDir := (\<lambda>h d src. (Some (found_root d), None)) \<rparr>"

text \<open>
  Package caches for the hint pass, as the loader of the second world leaves them: a
  diamond (\<open>a\<close> imports \<open>b\<close> and \<open>c\<close>, which both import \<open>d\<close>) and a cycle
  (\<open>a\<close> imports \<open>b\<close>, which imports \<open>a\<close>).
\<close>

definition hint_pkg :: "string \<Rightarrow> string list \<Rightarrow> Package" where
  "hint_pkg ip imps = (local_pkg ip)\<lparr>Imports := imps, Build_Imports := imps, Error := None\<rparr>"

definition diamond :: getter where
  "diamond = New\<lparr>packageCache :=
     [''a'' \<mapsto> hint_pkg ''a'' [''b'', ''c''], ''b'' \<mapsto> hint_pkg ''b'' [''d''],
      ''c'' \<mapsto> hint_pkg ''c'' [''d''], ''d'' \<mapsto> hint_pkg ''d'' []]\<rparr>"

definition diamond_rank :: "string \<Rightarrow> nat" where
  "diamond_rank ip = (if ip = ''a'' then 2 else if ip = ''d'' then 0 else 1)"

definition cycle :: getter where
  "cycle = New\<lparr>packageCache :=
     [''a'' \<mapsto> hint_pkg ''a'' [''b''], ''b'' \<mapsto> hint_pkg ''b'' [''a'']]\<rparr>"

section \<open>Properties of the orchestrator and of the walk\<close>

subsection \<open>Checkouts and the root cache\<close>


lemma created_append: "created (xs @ ys) = created xs @ created ys"
  by (induction xs rule: created.induct) auto

lemma resolve_root_state:
  "resolve_root E p insecure g = (x, g1) \<Longrightarrow>
     g1 = g \<or> g1 = log_event (EvResolve (ImportPath p) insecure) g"
  by (auto simp: resolve_root_def Let_def split: if_splits prod.splits option.splits)

lemma locate_root_state:
  "locate_root E p insecure g = (x, g1) \<Longrightarrow>
     g1 = g \<or> g1 = log_event (EvResolve (ImportPath p) insecure) g"
  by (auto simp: locate_root_def Let_def dest: resolve_root_state split: if_splits prod.splits sum.splits)

lemma root_inv_log:
  "root_inv g \<Longrightarrow> created [e] = [] \<Longrightarrow> root_inv (log_event e g)"
  by (simp add: root_inv_def log_event_def created_append)

lemma checkout_new_root_inv:
  assumes "checkout_new E r g = (out, g')" "root_inv g"
    "dir r \<notin> set (created (trace g))" "dir r \<in> dom (downloadRootCache g)"
  shows "root_inv g'"
  using assms
  by (auto simp: checkout_new_def Let_def root_inv_def log_event_def created_append
      split: if_splits option.splits)

lemma downloadPackage_root_inv:
  assumes "downloadPackage E p update insecure g = (out, p', g')" "root_inv g"
  shows "root_inv g'"
proof (cases "locate_root E p insecure g")
  case (Pair x g1)
  from locate_root_state [OF Pair] assms(2) have inv1: "root_inv g1"
    by (auto intro: root_inv_log)
  show ?thesis
  proof (cases x)
    case (Inl a)
    with Pair assms(1) have "g' = g1" by (simp add: downloadPackage_def)
    with inv1 show ?thesis by simp
  next
    case (Inr b)
    obtain r p1 where b: "b = (r, p1)" by (cases b)
    let ?g2 = "g1\<lparr>repoPackages := (repoPackages g1)(ImportPath p1 \<mapsto> r)\<rparr>"
    have inv2: "root_inv ?g2" using inv1 by (simp add: root_inv_def)
    show ?thesis
    proof (cases "downloadRootCache g1 (dir r) = None")
      case False
      with Pair Inr b assms(1) have "g' = ?g2" by (auto simp: downloadPackage_def Let_def)
      with inv2 show ?thesis by simp
    next
      case True
      let ?g3 = "?g2\<lparr>downloadRootCache := (downloadRootCache ?g2)(dir r \<mapsto> r)\<rparr>"
      from True inv1 have fresh: "dir r \<notin> set (created (trace ?g3))"
        by (auto simp: root_inv_def)
      have inv3: "root_inv ?g3" using inv2 by (auto simp: root_inv_def)
      show ?thesis
      proof (cases "exists r")
        case False
        with True Pair Inr b assms(1) obtain out' where "checkout_new E r ?g3 = (out', g')"
          by (auto simp: downloadPackage_def Let_def split: prod.splits)
        from checkout_new_root_inv [OF this inv3 fresh] show ?thesis by simp
      next
        case ex: True
        with True Pair Inr b assms(1) have "g' = ?g3"
          by (auto simp: downloadPackage_def Let_def and_then_def split: prod.splits)
        with inv3 show ?thesis by simp
      qed
    qed
  qed
qed


subsection \<open>Invariants of the walk\<close>

lemma walk_imports_invariant:
  assumes step: "\<And>path q stk g out stk' g'. rec path q stk g = Some (out, stk', g') \<Longrightarrow> I g \<Longrightarrow> I g'"
  shows "walk_imports E rec p xs stk g = Some (out, stk', g') \<Longrightarrow> I g \<Longrightarrow> I g'"
proof (induction xs arbitrary: stk g)
  case Nil
  then show ?case by simp
next
  case (Cons x xs)
  obtain i path where x: "x = (i, path)" by (cases x)
  show ?case
  proof (cases "path = ''C''")
    case True
    with Cons x show ?thesis by simp
  next
    case notC: False
    let ?orig = "if i < length (Build_Imports p) then Build_Imports p ! i else path"
    show ?thesis
    proof (cases "FindVendor E ?orig")
      case (Some j)
      with Cons.prems x notC have "g' = g"
        by (auto simp: Let_def split: if_splits)
      with Cons.prems show ?thesis by simp
    next
      case None
      let ?path1 = "if i \<ge> length (Imports p) then VendoredImportPath E p path else path"
      from Cons.prems(1) x notC None
      obtain out2 stk2 g2 where r: "rec ?path1 p stk g = Some (out2, stk2, g2)"
        by (auto simp: Let_def split: option.splits)
      from step [OF r Cons.prems(2)] have I2: "I g2" .
      show ?thesis
      proof (cases out2)
        case Ok
        with Cons.prems(1) x notC None r
        have "walk_imports E rec p xs stk2 g2 = Some (out, stk', g')"
          by (simp add: Let_def)
        from Cons.IH [OF this I2] show ?thesis .
      next
        case (Failed e)
        with Cons.prems(1) x notC None r have "g' = g2" by (simp add: Let_def)
        with I2 show ?thesis by simp
      next
        case (Panicked pn)
        with Cons.prems(1) x notC None r have "g' = g2" by (simp add: Let_def)
        with I2 show ?thesis by simp
      qed
    qed
  qed
qed

lemma walk_pkgs_invariant:
  assumes step: "\<And>path q stk g out stk' g'. rec path q stk g = Some (out, stk', g') \<Longrightarrow> I g \<Longrightarrow> I g'"
  shows "walk_pkgs E rec ps stk g = Some (out, stk', g') \<Longrightarrow> I g \<Longrightarrow> I g'"
proof (induction ps arbitrary: stk g)
  case Nil
  then show ?case by simp
next
  case (Cons p ps)
  from Cons.prems(1) obtain out1 stk1 g1
    where w: "walk_imports E rec p (enumerate 0 (Imports p)) stk g = Some (out1, stk1, g1)"
    by (auto split: option.splits)
  from walk_imports_invariant [of rec I, OF step w Cons.prems(2)] have I1: "I g1" by simp
  show ?case
  proof (cases out1)
    case Ok
    with Cons.prems(1) w have "walk_pkgs E rec ps stk1 g1 = Some (out, stk', g')" by simp
    from Cons.IH [OF this I1] show ?thesis .
  next
    case (Failed e)
    with Cons.prems(1) w I1 show ?thesis by simp
  next
    case (Panicked pn)
    with Cons.prems(1) w I1 show ?thesis by simp
  qed
qed

lemma load1_invariant:
  assumes pc: "\<And>g f. I g \<Longrightarrow> I (g\<lparr>packageCache := f\<rparr>)"
      and ev: "\<And>g a b c. I g \<Longrightarrow> I (log_event (EvLoad a b c) g)"
  shows "load1 E parent stk path uv g = (p, g1) \<Longrightarrow> I g \<Longrightarrow> I g1"
  by (auto simp: load1_def Let_def intro!: ev pc split: option.splits prod.splits)

lemma fetch_step_invariant:
  assumes pc: "\<And>g f. I g \<Longrightarrow> I (g\<lparr>packageCache := f\<rparr>)"
      and ev: "\<And>g a b c. I g \<Longrightarrow> I (log_event (EvLoad a b c) g)"
      and rp: "\<And>g f. I g \<Longrightarrow> I (g\<lparr>repoPackages := f\<rparr>)"
      and dp: "\<And>p u i g out p' g'. downloadPackage E p u i g = (out, p', g') \<Longrightarrow> I g \<Longrightarrow> I g'"
  shows "fetch_step E p path parent stk update insecure g = (x, stk', g') \<Longrightarrow> I g \<Longrightarrow> I g'"
proof -
  assume fs: "fetch_step E p path parent stk update insecure g = (x, stk', g')" and Ig: "I g"
  show "I g'"
  proof (cases "Dir p = [] \<or> update")
    case False
    with fs Ig show ?thesis
      by (auto simp: fetch_step_def intro: rp split: option.splits)
  next
    case True
    obtain out p' g1 where d: "downloadPackage E p update insecure g = (out, p', g1)"
      by (cases "downloadPackage E p update insecure g") auto
    from dp [OF d Ig] have I1: "I g1" .
    show ?thesis
    proof (cases out)
      case Ok
      let ?g2 = "g1\<lparr>packageCache := ClearPackageCachePartial E (packageCache g1) [path]\<rparr>"
      obtain q g3 where l: "load1 E parent (Pop (Push stk path)) path False ?g2 = (q, g3)"
        by (cases "load1 E parent (Pop (Push stk path)) path False ?g2") auto
      from load1_invariant [of I, OF pc ev l] pc [OF I1] have "I g3" by simp
      moreover from fs True d Ok l have "g' = g3"
        by (auto simp: fetch_step_def Let_def split: option.splits)
      ultimately show ?thesis by simp
    next
      case (Failed e)
      with fs True d I1 show ?thesis by (auto simp: fetch_step_def Let_def)
    next
      case (Panicked pn)
      with fs True d I1 show ?thesis by (auto simp: fetch_step_def Let_def)
    qed
  qed
qed

lemma download_stops_hard:
  assumes "load1 E parent stk path False g = (p, g1)" "hard_error p = Some e"
  shows "download (Suc n) E path parent stk update insecure single g = Some (Failed e, stk, g1)"
  using assms by (simp add: Let_def)

lemma download_stops_guard:
  assumes "load1 E parent stk path False g = (p, g1)" "hard_error p = None"
    "Standard p \<or> downloadCache g1 (ImportPath p)"
  shows "download (Suc n) E path parent stk update insecure single g = Some (Ok, stk, g1)"
  using assms by (auto simp: Let_def)

lemma download_proceeds:
  assumes "load1 E parent stk path False g = (p, g1)" "hard_error p = None"
    "\<not> Standard p" "\<not> downloadCache g1 (ImportPath p)"
    "fetch_step E p (ImportPath p) parent stk update insecure
       (if \<not> single then g1\<lparr>downloadCache := (downloadCache g1)(ImportPath p := True)\<rparr> else g1)
     = (x, stk3, g3)"
  shows "download (Suc n) E path parent stk update insecure single g =
           (case x of
              Inl out \<Rightarrow> Some (out, stk3, g3)
            | Inr pkgs \<Rightarrow>
                if single then Some (Ok, stk3, g3)
                else walk_pkgs E (\<lambda>path' p' stk' g'.
                       download n E path' (Some p') stk' update insecure False g') pkgs stk3 g3)"
  using assms by (auto simp: Let_def split: sum.splits)

lemma download_invariant:
  assumes pc: "\<And>g f. I g \<Longrightarrow> I (g\<lparr>packageCache := f\<rparr>)"
      and ev: "\<And>g a b c. I g \<Longrightarrow> I (log_event (EvLoad a b c) g)"
      and rp: "\<And>g f. I g \<Longrightarrow> I (g\<lparr>repoPackages := f\<rparr>)"
      and dc: "\<And>g k. I g \<Longrightarrow> I (g\<lparr>downloadCache := (downloadCache g)(k := True)\<rparr>)"
      and dp: "\<And>p u i g out p' g'. downloadPackage E p u i g = (out, p', g') \<Longrightarrow> I g \<Longrightarrow> I g'"
  shows "download n E path parent stk update insecure single g = Some (out, stk', g') \<Longrightarrow> I g \<Longrightarrow> I g'"
proof (induction n arbitrary: path parent stk single g out stk' g')
  case 0
  then show ?case by simp
next
  case (Suc n)
  obtain p g1 where l: "load1 E parent stk path False g = (p, g1)"
    by (cases "load1 E parent stk path False g") auto
  from load1_invariant [of I, OF pc ev l Suc.prems(2)] have I1: "I g1" .
  show ?case
  proof (cases "hard_error p \<noteq> None \<or> Standard p \<or> downloadCache g1 (ImportPath p)")
    case True
    with Suc.prems(1) download_stops_hard [OF l, of _ n update insecure single]
      download_stops_guard [OF l, of n update insecure single]
    have "g' = g1" by (cases "hard_error p") auto
    with I1 show ?thesis by simp
  next
    case False
    let ?g2 = "if \<not> single then g1\<lparr>downloadCache := (downloadCache g1)(ImportPath p := True)\<rparr> else g1"
    have I2: "I ?g2" using I1 dc by simp
    obtain x stk3 g3 where f: "fetch_step E p (ImportPath p) parent stk update insecure ?g2 = (x, stk3, g3)"
      by (cases "fetch_step E p (ImportPath p) parent stk update insecure ?g2") auto
    from fetch_step_invariant [of I, OF pc ev rp dp f I2] have I3: "I g3" .
    from False have nh: "hard_error p = None" and ns: "\<not> Standard p"
      and nc: "\<not> downloadCache g1 (ImportPath p)" by auto
    note unf = download_proceeds [OF l nh ns nc f, of n]
    show ?thesis
    proof (cases x)
      case (Inl o1)
      with Suc.prems(1) unf have "g' = g3" by simp
      with I3 show ?thesis by simp
    next
      case (Inr pkgs)
      show ?thesis
      proof (cases single)
        case True
        with Suc.prems(1) unf Inr have "g' = g3" by simp
        with I3 show ?thesis by simp
      next
        case ns: False
        let ?rec = "\<lambda>path' p' stk' g'. download n E path' (Some p') stk' update insecure False g'"
        from Suc.prems(1) unf Inr ns
        have w: "walk_pkgs E ?rec pkgs stk3 g3 = Some (out, stk', g')"
          by simp
        have "\<And>path q stk g out stk' g'. ?rec path q stk g = Some (out, stk', g') \<Longrightarrow> I g \<Longrightarrow> I g'"
          using Suc.IH by blast
        from walk_pkgs_invariant [of ?rec I, OF this w I3] show ?thesis by simp
      qed
    qed
  qed
qed

lemma download_root_inv:
  "download n E path parent stk update insecure single g = Some (out, stk', g') \<Longrightarrow> root_inv g \<Longrightarrow> root_inv g'"
proof (rule download_invariant [where I = root_inv])
  show "\<And>g f. root_inv g \<Longrightarrow> root_inv (g\<lparr>packageCache := f\<rparr>)" by (simp add: root_inv_def)
  show "\<And>g a b c. root_inv g \<Longrightarrow> root_inv (log_event (EvLoad a b c) g)" by (simp add: root_inv_log)
  show "\<And>g f. root_inv g \<Longrightarrow> root_inv (g\<lparr>repoPackages := f\<rparr>)" by (simp add: root_inv_def)
  show "\<And>g k. root_inv g \<Longrightarrow> root_inv (g\<lparr>downloadCache := (downloadCache g)(k := True)\<rparr>)"
    by (simp add: root_inv_def)
  show "\<And>p u i g out p' g'. downloadPackage E p u i g = (out, p', g') \<Longrightarrow> root_inv g \<Longrightarrow> root_inv g'"
    by (rule downloadPackage_root_inv)
qed

lemma Get_state:
  "Get n E path update insecure single g = Some (out, h, g') \<Longrightarrow>
     \<exists>out1 stk1. download n E path None [] update insecure single g = Some (out1, stk1, g')"
  by (auto simp: Get_def split: option.splits prod.splits outcome.splits if_splits sum.splits)

lemma reaches_root_inv: "reaches E g0 g \<Longrightarrow> root_inv g0 \<Longrightarrow> root_inv g"
proof (induction rule: reaches.induct)
  case reaches_refl
  then show ?case .
next
  case (reaches_Get g n path update insecure single out h g')
  from Get_state [OF reaches_Get.hyps(2)] reaches_Get.IH [OF reaches_Get.prems]
  show ?case by (auto dest: download_root_inv)
next
  case (reaches_download g n path parent stk update insecure single out stk' g')
  then show ?case by (auto dest: download_root_inv)
next
  case (reaches_downloadPackage g p update insecure dout p' g')
  then show ?case by (auto dest: downloadPackage_root_inv)
qed

lemma root_inv_New: "root_inv New"
  by (simp add: root_inv_def New_def)

lemma downloadPackage_cached_root:
  assumes loc: "locate_root E p insecure g = (Inr (r, p1), g1)"
      and cached: "downloadRootCache g (dir r) \<noteq> None"
  shows "downloadPackage E p update insecure g
           = (Ok, p1, g1\<lparr>repoPackages := (repoPackages g1)(ImportPath p1 \<mapsto> r)\<rparr>)
         \<and> created (trace g1) = created (trace g)"
proof -
  from locate_root_state [OF loc]
  have "downloadRootCache g1 = downloadRootCache g \<and> created (trace g1) = created (trace g)"
    by (auto simp: log_event_def created_append)
  with loc cached show ?thesis by (simp add: downloadPackage_def Let_def)
qed

text \<open>
  Claim C1. In every state a Getter reaches from \<open>New\<close>, by any calls of \<open>Get\<close>,
  of the walker and of the orchestrator, the backend's checkout operation has been
  invoked at most once for each local root directory: the directories checked out are
  pairwise distinct. And once a root directory is recorded in \<open>downloadRootCache\<close>, a
  call of \<open>downloadPackage\<close> that resolves to it returns \<open>nil\<close> and checks nothing
  out.
\<close>

theorem checkout_once_per_root:
  assumes "reaches E New g"
  shows "distinct (created (trace g))
       \<and> (locate_root E p insecure g = (Inr (r, p1), g1) \<longrightarrow> downloadRootCache g (dir r) \<noteq> None \<longrightarrow>
            downloadPackage E p update insecure g
              = (Ok, p1, g1\<lparr>repoPackages := (repoPackages g1)(ImportPath p1 \<mapsto> r)\<rparr>)
            \<and> created (trace g1) = created (trace g))"
  using reaches_root_inv [OF assms root_inv_New] downloadPackage_cached_root
  by (auto simp: root_inv_def)





text \<open>
  In the fake world, after the walk that checked \<open>d\<close> out, a call of
  \<open>downloadPackage\<close> for \<open>d\<close> with \<open>update\<close> set returns \<open>nil\<close>.
\<close>

theorem checkout_once_per_root_witness:
  "distinct (created (trace fetched_d))
   \<and> fst (downloadPackage fake_env (fake_load (trace fetched_d) ''d'') True False fetched_d) = Ok"
proof -
  let ?p = "fake_load (trace fetched_d) ''d''"
  have "\<not> Option.is_none (download 1 fake_env ''d'' None [] False False False New)" by code_simp
  then obtain out stk' where G:
    "download 1 fake_env ''d'' None [] False False False New = Some (out, stk', fetched_d)"
    by (cases "download 1 fake_env ''d'' None [] False False False New") (auto simp: fetched_d_def)
  have reach: "reaches fake_env New fetched_d"
    by (rule reaches_download [OF reaches_refl G])
  obtain x g1 where loc: "locate_root fake_env ?p False fetched_d = (x, g1)"
    by (cases "locate_root fake_env ?p False fetched_d") auto
  have "\<not> isl (fst (locate_root fake_env ?p False fetched_d))" by code_simp
  with loc obtain r p1 where x: "x = Inr (r, p1)" by (cases x) auto
  have "\<not> Option.is_none (downloadRootCache fetched_d
          (dir (fst (projr (fst (locate_root fake_env ?p False fetched_d))))))"
    by code_simp
  with loc x have cached: "downloadRootCache fetched_d (dir r) \<noteq> None"
    by (simp add: Option.is_none_def)
  from checkout_once_per_root [OF reach, of ?p False r p1 g1 True] loc x cached
  show ?thesis by simp
qed

subsection \<open>The insecure-protocol error and the update branch\<close>

lemma locate_root_insecure:
  "locate_root E p insecure g = (Inl (Failed (InsecureProtocol r)), g1) \<Longrightarrow>
     \<not> insecure \<and> \<not> isSecure E r"
  by (auto simp: locate_root_def resolve_root_def place_in_gopath_def Let_def
      split: if_splits prod.splits sum.splits option.splits list.splits)

lemma checkout_new_not_insecure:
  "checkout_new E r g = (out, g1) \<Longrightarrow> out \<noteq> Failed (InsecureProtocol u)"
  by (auto simp: checkout_new_def Let_def split: if_splits option.splits)

lemma downloadPackage_insecure_from_locate:
  "downloadPackage E p update insecure g = (Failed (InsecureProtocol u), p', g') \<Longrightarrow>
     locate_root E p insecure g = (Inl (Failed (InsecureProtocol u)), g') \<and> p' = p"
  by (auto simp: downloadPackage_def and_then_def Let_def
      dest: checkout_new_not_insecure split: if_splits prod.splits sum.splits)

text \<open>
  Claim C6. When \<open>downloadPackage\<close> returns the insecure-protocol error, the caller
  did not pass \<open>insecure\<close> and the repository is not secure, and the call has made no
  \<open>MkdirAll\<close> and no backend operation; the two root caches and the package are as
  they were.
\<close>

theorem insecure_error_before_mutation:
  assumes "downloadPackage E p update insecure g = (Failed (InsecureProtocol u), p', g')"
  shows "filter fs_mutation (trace g') = filter fs_mutation (trace g)
       \<and> downloadRootCache g' = downloadRootCache g
       \<and> repoPackages g' = repoPackages g
       \<and> p' = p \<and> \<not> insecure \<and> \<not> isSecure E u"
proof -
  from assms have loc: "locate_root E p insecure g = (Inl (Failed (InsecureProtocol u)), g')"
    and p: "p' = p"
    using downloadPackage_insecure_from_locate by blast+
  from locate_root_state [OF loc]
  have "g' = g \<or> g' = log_event (EvResolve (ImportPath p) insecure) g" .
  then have "filter fs_mutation (trace g') = filter fs_mutation (trace g)
       \<and> downloadRootCache g' = downloadRootCache g \<and> repoPackages g' = repoPackages g"
    by (auto simp: log_event_def)
  with p locate_root_insecure [OF loc] show ?thesis by simp
qed

text \<open>
  In the fake world the repository of \<open>u\<close> is served over plain http.
\<close>

theorem insecure_error_before_mutation_witness:
  "fst (downloadPackage fake_env (fake_load [] ''u'') False False New)
     = Failed (InsecureProtocol ''http://u'')
   \<and> filter fs_mutation
       (trace (snd (snd (downloadPackage fake_env (fake_load [] ''u'') False False New)))) = []"
proof -
  have out: "fst (downloadPackage fake_env (fake_load [] ''u'') False False New)
     = Failed (InsecureProtocol ''http://u'')" by code_simp
  then obtain p' g' where
    "downloadPackage fake_env (fake_load [] ''u'') False False New
       = (Failed (InsecureProtocol ''http://u''), p', g')"
    by (cases "downloadPackage fake_env (fake_load [] ''u'') False False New") auto
  from insecure_error_before_mutation [OF this] this out show ?thesis
    by (simp add: New_def)
qed


lemma checkout_new_no_update:
  "checkout_new E r g = (out, g') \<Longrightarrow> filter is_update (trace g') = filter is_update (trace g)"
  by (auto simp: checkout_new_def Let_def log_event_def split: if_splits option.splits)

lemma downloadPackage_no_update:
  "filter is_update (trace (snd (snd (downloadPackage E p update insecure g))))
     = filter is_update (trace g)"
proof (cases "locate_root E p insecure g")
  case (Pair x g1)
  from locate_root_state [OF Pair]
  have t1: "filter is_update (trace g1) = filter is_update (trace g)"
    by (auto simp: log_event_def)
  show ?thesis
  proof (cases x)
    case (Inl a)
    with Pair t1 show ?thesis by (simp add: downloadPackage_def)
  next
    case (Inr b)
    obtain r p1 where b: "b = (r, p1)" by (cases b)
    let ?g3 = "g1\<lparr>repoPackages := (repoPackages g1)(ImportPath p1 \<mapsto> r),
                  downloadRootCache := (downloadRootCache g1)(dir r \<mapsto> r)\<rparr>"
    obtain out g4 where c: "checkout_new E r ?g3 = (out, g4)"
      by (cases "checkout_new E r ?g3") auto
    from checkout_new_no_update [OF c] t1
    have "filter is_update (trace g4) = filter is_update (trace g)" by simp
    with Pair Inr b c t1 show ?thesis
      by (simp add: downloadPackage_def Let_def and_then_def)
  qed
qed

text \<open>
  Claim C7, as amended. No call of \<open>downloadPackage\<close> invokes the backend's update
  operation. When the root located for the package has a checkout (\<open>exists\<close>) and its
  directory is not yet a key of \<open>downloadRootCache\<close>, the call panics with
  \<open>root exists\<close>.
\<close>

theorem root_exists_aborts:
  "filter is_update (trace (snd (snd (downloadPackage E p update insecure g))))
     = filter is_update (trace g)
   \<and> (locate_root E p insecure g = (Inr (r, p1), g1) \<longrightarrow> exists r \<longrightarrow>
        downloadRootCache g1 (dir r) = None \<longrightarrow>
        fst (downloadPackage E p update insecure g) = Panicked RootExists)"
  using downloadPackage_no_update [of E p update insecure g]
  by (simp add: downloadPackage_def Let_def and_then_def)

text \<open>
  In the second world \<open>x\<close> is checked out already, and a fresh Getter is asked to
  update it.
\<close>

theorem root_exists_aborts_witness:
  "fst (downloadPackage local_env (local_pkg ''x'') True False New) = Panicked RootExists
   \<and> filter is_update
       (trace (snd (snd (downloadPackage local_env (local_pkg ''x'') True False New)))) = []"
proof -
  let ?loc = "locate_root local_env (local_pkg ''x'') False New"
  obtain x g1 where loc: "?loc = (x, g1)" by (cases ?loc) auto
  have "\<not> isl (fst ?loc)" by code_simp
  with loc obtain r p1 where x: "x = Inr (r, p1)" by (cases x) auto
  have "exists (fst (projr (fst ?loc)))" by code_simp
  with loc x have ex: "exists r" by simp
  have "Option.is_none (downloadRootCache (snd ?loc) (dir (fst (projr (fst ?loc)))))"
    by code_simp
  with loc x have fresh: "downloadRootCache g1 (dir r) = None"
    by (simp add: Option.is_none_def)
  from root_exists_aborts [of local_env "local_pkg ''x''" True False New r p1 g1]
    loc x ex fresh
  show ?thesis by (simp add: New_def)
qed

text \<open>
  The claim as stated fails where the directory of an existing checkout is already in
  \<open>downloadRootCache\<close>: after the walk that checked \<open>d\<close> out, the root found for
  \<open>d\<close> exists, and \<open>downloadPackage\<close> returns \<open>nil\<close> at line 189 instead of
  panicking.
\<close>

theorem root_exists_counterexample:
  "(case locate_root fake_env (fake_load (trace fetched_d) ''d'') False fetched_d of
      (Inr (r, _), _) \<Rightarrow> exists r
    | _ \<Rightarrow> False)
   \<and> fst (downloadPackage fake_env (fake_load (trace fetched_d) ''d'') True False fetched_d) = Ok"
  unfolding fetched_d_def by code_simp


subsection \<open>The import stack\<close>

lemma fetch_step_stack:
  "fetch_step E p path parent stk update insecure g = (x, stk', g') \<Longrightarrow>
     (case x of Inl out \<Rightarrow> returned out \<longrightarrow> stk' = stk | Inr pkgs \<Rightarrow> stk' = stk)"
  by (auto simp: fetch_step_def Push_def Pop_def Copy_def Let_def
      split: if_splits prod.splits option.splits outcome.splits sum.splits)

lemma walk_imports_stack:
  assumes step: "\<And>path q stk g out stk' g'. rec path q stk g = Some (out, stk', g') \<Longrightarrow> returned out \<Longrightarrow> stk' = stk"
  shows "walk_imports E rec p xs stk g = Some (out, stk', g') \<Longrightarrow> returned out \<Longrightarrow> stk' = stk"
proof (induction xs arbitrary: stk g)
  case Nil
  then show ?case by simp
next
  case (Cons x xs)
  obtain i path where x: "x = (i, path)" by (cases x)
  show ?case
  proof (cases "path = ''C''")
    case True
    with Cons x show ?thesis by simp
  next
    case notC: False
    let ?orig = "if i < length (Build_Imports p) then Build_Imports p ! i else path"
    show ?thesis
    proof (cases "FindVendor E ?orig")
      case (Some j)
      with Cons.prems x notC show ?thesis
        by (auto simp: Let_def Push_def Pop_def split: if_splits)
    next
      case None
      let ?path1 = "if i \<ge> length (Imports p) then VendoredImportPath E p path else path"
      from Cons.prems(1) x notC None
      obtain out2 stk2 g2 where r: "rec ?path1 p stk g = Some (out2, stk2, g2)"
        by (auto simp: Let_def split: option.splits)
      show ?thesis
      proof (cases out2)
        case Ok
        with step [OF r] have s2: "stk2 = stk" by simp
        from Ok Cons.prems(1) x notC None r
        have "walk_imports E rec p xs stk2 g2 = Some (out, stk', g')"
          by (simp add: Let_def)
        from Cons.IH [OF this Cons.prems(2)] s2 show ?thesis by simp
      next
        case (Failed e)
        with step [OF r] have s2: "stk2 = stk" by simp
        from Failed Cons.prems(1) x notC None r have "stk' = stk2" by (simp add: Let_def)
        with s2 show ?thesis by simp
      next
        case (Panicked pn)
        with Cons.prems(1) x notC None r have "out = Panicked pn" by (simp add: Let_def)
        with Cons.prems(2) show ?thesis by simp
      qed
    qed
  qed
qed

lemma walk_pkgs_stack:
  assumes step: "\<And>path q stk g out stk' g'. rec path q stk g = Some (out, stk', g') \<Longrightarrow> returned out \<Longrightarrow> stk' = stk"
  shows "walk_pkgs E rec ps stk g = Some (out, stk', g') \<Longrightarrow> returned out \<Longrightarrow> stk' = stk"
proof (induction ps arbitrary: stk g)
  case Nil
  then show ?case by simp
next
  case (Cons p ps)
  from Cons.prems(1) obtain out1 stk1 g1
    where w: "walk_imports E rec p (enumerate 0 (Imports p)) stk g = Some (out1, stk1, g1)"
    by (auto split: option.splits)
  note wi = walk_imports_stack [of rec, OF step w]
  show ?case
  proof (cases out1)
    case Ok
    with wi have s1: "stk1 = stk" by simp
    from Ok Cons.prems(1) w have "walk_pkgs E rec ps stk1 g1 = Some (out, stk', g')" by simp
    from Cons.IH [OF this Cons.prems(2)] s1 show ?thesis by simp
  next
    case (Failed e)
    with Cons.prems w wi show ?thesis by simp
  next
    case (Panicked pn)
    with Cons.prems(1) w have "out = Panicked pn" by simp
    with Cons.prems(2) show ?thesis by simp
  qed
qed

text \<open>
  Claim C8. Whenever \<open>download\<close> returns, with \<open>nil\<close> or with an error, the import
  stack is the one it was called with: the entry pushed before the orchestrator is
  called and the entry pushed to build the vendor-path error are popped before the
  return. (The loader is taken to hand the stack back as it received it. A panic is
  not a return: it unwinds past the \<open>Pop\<close>.)
\<close>

theorem download_restores_stack:
  "download n E path parent stk update insecure single g = Some (out, stk', g') \<Longrightarrow>
     returned out \<Longrightarrow> stk' = stk"
proof (induction n arbitrary: path parent stk single g out stk' g')
  case 0
  then show ?case by simp
next
  case (Suc n)
  obtain p g1 where l: "load1 E parent stk path False g = (p, g1)"
    by (cases "load1 E parent stk path False g") auto
  show ?case
  proof (cases "hard_error p \<noteq> None \<or> Standard p \<or> downloadCache g1 (ImportPath p)")
    case True
    with Suc.prems(1) download_stops_hard [OF l, of _ n update insecure single]
      download_stops_guard [OF l, of n update insecure single]
    show ?thesis by (cases "hard_error p") auto
  next
    case False
    let ?g2 = "if \<not> single then g1\<lparr>downloadCache := (downloadCache g1)(ImportPath p := True)\<rparr> else g1"
    obtain x stk3 g3 where f: "fetch_step E p (ImportPath p) parent stk update insecure ?g2 = (x, stk3, g3)"
      by (cases "fetch_step E p (ImportPath p) parent stk update insecure ?g2") auto
    from False have nh: "hard_error p = None" and ns: "\<not> Standard p"
      and nc: "\<not> downloadCache g1 (ImportPath p)" by auto
    note unf = download_proceeds [OF l nh ns nc f, of n]
    note fs = fetch_step_stack [OF f]
    show ?thesis
    proof (cases x)
      case (Inl o1)
      with Suc.prems unf fs show ?thesis by simp
    next
      case (Inr pkgs)
      with fs have s3: "stk3 = stk" by simp
      show ?thesis
      proof (cases single)
        case True
        with Suc.prems(1) unf Inr s3 show ?thesis by simp
      next
        case ns: False
        let ?rec = "\<lambda>path' p' stk' g'. download n E path' (Some p') stk' update insecure False g'"
        from Suc.prems(1) unf Inr ns
        have w: "walk_pkgs E ?rec pkgs stk3 g3 = Some (out, stk', g')"
          by simp
        have "\<And>path q stk g out stk' g'. ?rec path q stk g = Some (out, stk', g') \<Longrightarrow> returned out \<Longrightarrow> stk' = stk"
          using Suc.IH by blast
        from walk_pkgs_stack [of ?rec, OF this w Suc.prems(2)] s3 show ?thesis by simp
      qed
    qed
  qed
qed

text \<open>
  In the fake world the walk from \<open>u\<close> fails in the orchestrator (insecure protocol);
  the stack \<open>[r]\<close> comes back as it was.
\<close>

theorem download_restores_stack_witness:
  "returned (fst (the (download 1 fake_env ''u'' None [''r''] False False False New)))
   \<and> fst (the (download 1 fake_env ''u'' None [''r''] False False False New)) \<noteq> Ok
   \<and> fst (snd (the (download 1 fake_env ''u'' None [''r''] False False False New))) = [''r'']"
proof -
  let ?d = "download 1 fake_env ''u'' None [''r''] False False False New"
  have "\<not> Option.is_none ?d" by code_simp
  then obtain out stk' g' where d: "?d = Some (out, stk', g')"
    by (cases ?d) auto
  have r: "returned (fst (the ?d))" and e: "fst (the ?d) \<noteq> Ok" by code_simp+
  with d have "returned out" by simp
  from download_restores_stack [OF d this] d r e show ?thesis by simp
qed

subsection \<open>Single mode\<close>

lemma checkout_new_created:
  "checkout_new E r g = (out, g') \<Longrightarrow>
     length (created (trace g')) \<le> Suc (length (created (trace g)))"
  by (auto simp: checkout_new_def Let_def log_event_def created_append
      split: if_splits option.splits)

lemma downloadPackage_created:
  assumes "downloadPackage E p update insecure g = (out, p', g')"
  shows "length (created (trace g')) \<le> Suc (length (created (trace g)))"
proof (cases "locate_root E p insecure g")
  case (Pair x g1)
  from locate_root_state [OF Pair]
  have t1: "created (trace g1) = created (trace g)"
    by (auto simp: log_event_def created_append)
  show ?thesis
  proof (cases x)
    case (Inl a)
    with Pair t1 assms show ?thesis by (auto simp: downloadPackage_def)
  next
    case (Inr b)
    obtain r p1 where b: "b = (r, p1)" by (cases b)
    let ?g3 = "g1\<lparr>repoPackages := (repoPackages g1)(ImportPath p1 \<mapsto> r),
                  downloadRootCache := (downloadRootCache g1)(dir r \<mapsto> r)\<rparr>"
    obtain out4 g4 where c: "checkout_new E r ?g3 = (out4, g4)"
      by (cases "checkout_new E r ?g3") auto
    from checkout_new_created [OF c] t1
    have "length (created (trace g4)) \<le> Suc (length (created (trace g)))" by simp
    with Pair Inr b c t1 assms show ?thesis
      by (auto simp: downloadPackage_def Let_def and_then_def split: if_splits)
  qed
qed

lemma load1_created:
  "load1 E parent stk path uv g = (p, g1) \<Longrightarrow> created (trace g1) = created (trace g)"
  by (auto simp: load1_def Let_def log_event_def created_append split: option.splits prod.splits)

lemma fetch_step_created:
  assumes "fetch_step E p path parent stk update insecure g = (x, stk', g')"
  shows "length (created (trace g')) \<le> Suc (length (created (trace g)))"
proof (cases "Dir p = [] \<or> update")
  case False
  with assms show ?thesis by (auto simp: fetch_step_def split: option.splits)
next
  case True
  obtain out p' g1 where d: "downloadPackage E p update insecure g = (out, p', g1)"
    by (cases "downloadPackage E p update insecure g") auto
  note c1 = downloadPackage_created [OF d]
  let ?g2 = "g1\<lparr>packageCache := ClearPackageCachePartial E (packageCache g1) [path]\<rparr>"
  obtain q g3 where l: "load1 E parent (Pop (Push stk path)) path False ?g2 = (q, g3)"
    by (cases "load1 E parent (Pop (Push stk path)) path False ?g2") auto
  from load1_created [OF l] have "created (trace g3) = created (trace g1)" by simp
  with assms True d l c1 show ?thesis
    by (cases out) (auto simp: fetch_step_def Let_def split: option.splits)
qed

text \<open>
  Claim C9. With \<open>single\<close> set, \<open>download\<close> returns, and it does so without a
  recursive call: one unit of fuel is enough whatever the package imports (every
  recursive call uses up one, and none is left), and more fuel gives the same result.
  At most one checkout is made, that of the package itself.
\<close>

theorem single_mode_no_recursion:
  "\<exists>out stk' g'.
     download (Suc n) E path parent stk update insecure True g = Some (out, stk', g')
     \<and> download (Suc 0) E path parent stk update insecure True g = Some (out, stk', g')
     \<and> length (created (trace g')) \<le> Suc (length (created (trace g)))"
proof -
  obtain p g1 where l: "load1 E parent stk path False g = (p, g1)"
    by (cases "load1 E parent stk path False g") auto
  note c1 = load1_created [OF l]
  show ?thesis
  proof (cases "hard_error p \<noteq> None \<or> Standard p \<or> downloadCache g1 (ImportPath p)")
    case True
    with c1 download_stops_hard [OF l, of _ _ update insecure True]
      download_stops_guard [OF l, of _ update insecure True]
    show ?thesis by (cases "hard_error p") auto
  next
    case False
    obtain x stk3 g3 where f: "fetch_step E p (ImportPath p) parent stk update insecure
        (if \<not> True then g1\<lparr>downloadCache := (downloadCache g1)(ImportPath p := True)\<rparr> else g1)
        = (x, stk3, g3)"
      by (cases "fetch_step E p (ImportPath p) parent stk update insecure
        (if \<not> True then g1\<lparr>downloadCache := (downloadCache g1)(ImportPath p := True)\<rparr> else g1)") auto
    from False have nh: "hard_error p = None" and ns: "\<not> Standard p"
      and nc: "\<not> downloadCache g1 (ImportPath p)" by auto
    from fetch_step_created [OF f] c1
    have "length (created (trace g3)) \<le> Suc (length (created (trace g)))" by simp
    with download_proceeds [OF l nh ns nc f] show ?thesis
      by (cases x) auto
  qed
qed

text \<open>
  In the second world \<open>x\<close> imports \<open>y\<close>; in single mode the walk from \<open>x\<close> ends
  with one unit of fuel.
\<close>

theorem single_mode_no_recursion_witness:
  "\<exists>out stk' g'.
     download (Suc 4) local_env ''x'' None [] False False True New = Some (out, stk', g')
     \<and> download (Suc 0) local_env ''x'' None [] False False True New = Some (out, stk', g')
     \<and> length (created (trace g')) \<le> Suc (length (created (trace New)))"
  by (rule single_mode_no_recursion)



subsection \<open>The vendoring rewrite\<close>

lemma load1_no_vendoring:
  "load1 (E\<lparr>VendoredImportPath := f\<rparr>) parent stk path uv g = load1 E parent stk path uv g"
  by (simp add: load1_def Let_def cong: option.case_cong prod.case_cong)

lemma resolve_root_no_vendoring:
  "resolve_root (E\<lparr>VendoredImportPath := f\<rparr>) = resolve_root E"
  by (intro ext) (simp add: resolve_root_def Let_def cong: option.case_cong prod.case_cong if_cong)

lemma place_in_gopath_no_vendoring:
  "place_in_gopath (E\<lparr>VendoredImportPath := f\<rparr>) = place_in_gopath E"
  by (intro ext) (simp add: place_in_gopath_def cong: list.case_cong if_cong)

lemma locate_root_no_vendoring:
  "locate_root (E\<lparr>VendoredImportPath := f\<rparr>) = locate_root E"
  by (intro ext)
     (simp add: locate_root_def resolve_root_no_vendoring place_in_gopath_no_vendoring Let_def
        cong: sum.case_cong prod.case_cong if_cong)

lemma checkout_new_no_vendoring:
  "checkout_new (E\<lparr>VendoredImportPath := f\<rparr>) = checkout_new E"
  by (intro ext) (simp add: checkout_new_def Let_def cong: option.case_cong if_cong)

lemma update_existing_no_vendoring:
  "update_existing (E\<lparr>VendoredImportPath := f\<rparr>) = update_existing E"
  by (intro ext) (simp add: update_existing_def Let_def cong: option.case_cong if_cong)

lemma downloadPackage_no_vendoring:
  "downloadPackage (E\<lparr>VendoredImportPath := f\<rparr>) = downloadPackage E"
  by (intro ext)
     (simp add: downloadPackage_def locate_root_no_vendoring checkout_new_no_vendoring
        update_existing_no_vendoring Let_def cong: sum.case_cong prod.case_cong if_cong)

lemma fetch_step_no_vendoring:
  "fetch_step (E\<lparr>VendoredImportPath := f\<rparr>) p path parent stk update insecure g
     = fetch_step E p path parent stk update insecure g"
  by (simp add: fetch_step_def load1_no_vendoring downloadPackage_no_vendoring Let_def
      cong: option.case_cong prod.case_cong outcome.case_cong if_cong)

lemma walk_imports_no_vendoring:
  "\<forall>x \<in> set xs. fst x < length (Imports p) \<Longrightarrow>
     walk_imports (E\<lparr>VendoredImportPath := f\<rparr>) rec p xs stk g = walk_imports E rec p xs stk g"
proof (induction xs arbitrary: stk g)
  case Nil
  show ?case by simp
next
  case (Cons x xs)
  obtain i path where x: "x = (i, path)" by (cases x)
  with Cons.prems have i: "i < length (Imports p)" by simp
  from Cons have IH: "\<And>stk g. walk_imports (E\<lparr>VendoredImportPath := f\<rparr>) rec p xs stk g
      = walk_imports E rec p xs stk g" by simp
  show ?case unfolding x using i
    by (simp add: IH Let_def cong: option.case_cong outcome.case_cong prod.case_cong if_cong)
qed

lemma enumerate_index_bound: "\<forall>x \<in> set (enumerate 0 xs). fst x < length xs"
  by (auto simp: in_set_enumerate_eq)

lemma walk_pkgs_no_vendoring:
  "walk_pkgs (E\<lparr>VendoredImportPath := f\<rparr>) rec ps stk g = walk_pkgs E rec ps stk g"
  by (induction ps arbitrary: stk g)
     (simp_all add: walk_imports_no_vendoring [OF enumerate_index_bound]
        cong: option.case_cong outcome.case_cong prod.case_cong)

text \<open>
  Claim C3, as amended. The walker never rewrites an import path through
  \<open>VendoredImportPath\<close>: the rewrite at line 123 is guarded by \<open>i >= len(p.Imports)\<close>,
  and \<open>i\<close> ranges over the indices of \<open>p.Imports\<close>. Whatever function stands for
  \<open>VendoredImportPath\<close>, \<open>download\<close> does the same.
\<close>

theorem vendoring_rewrite_never_applied:
  "download n (E\<lparr>VendoredImportPath := f\<rparr>) path parent stk update insecure single g
     = download n E path parent stk update insecure single g"
proof (induction n arbitrary: path parent stk single g)
  case 0
  show ?case by simp
next
  case (Suc n)
  have "(\<lambda>path' p' stk' g'. download n (E\<lparr>VendoredImportPath := f\<rparr>) path' (Some p') stk' update insecure False g')
      = (\<lambda>path' p' stk' g'. download n E path' (Some p') stk' update insecure False g')"
    by (simp add: Suc.IH)
  then show ?case
    by (simp add: load1_no_vendoring fetch_step_no_vendoring walk_pkgs_no_vendoring Let_def
        cong: option.case_cong prod.case_cong sum.case_cong if_cong)
qed

text \<open>
  The walk from \<open>x\<close> in the second world, with the vendoring lookup replaced by the
  identity.
\<close>

theorem vendoring_rewrite_never_applied_witness:
  "download 2 (local_env\<lparr>VendoredImportPath := (\<lambda>p s. s)\<rparr>) ''x'' None [] False False False New
     = download 2 local_env ''x'' None [] False False False New"
  by (rule vendoring_rewrite_never_applied)

text \<open>
  The claim as stated fails: in the second world \<open>y\<close> is an import of \<open>x\<close> beyond
  its build-declared list, the vendoring lookup would turn it into \<open>x/vendor/y\<close>, and
  the walk from \<open>x\<close> loads \<open>y\<close> itself, from the directory of \<open>x\<close>.
\<close>

theorem vendoring_rewrite_counterexample:
  "length (Build_Imports (local_pkg ''x'')) < length (Imports (local_pkg ''x''))
   \<and> Imports (local_pkg ''x'') ! 0 = ''y''
   \<and> VendoredImportPath local_env (local_pkg ''x'') ''y'' = ''x/vendor/y''
   \<and> (case download 2 local_env ''x'' None [] False False False New of
         Some (out, stk, g) \<Rightarrow>
           out = Ok \<and> trace g = [EvLoad ''x'' ''/'' False, EvLoad ''y'' ''/w/src/x'' False]
       | None \<Rightarrow> False)"
  by code_simp



subsection \<open>The download cache\<close>

lemma checkout_new_downloadCache:
  "checkout_new E r g = (out, g') \<Longrightarrow> downloadCache g' = downloadCache g"
  by (auto simp: checkout_new_def Let_def log_event_def split: if_splits option.splits)

lemma downloadPackage_downloadCache:
  assumes "downloadPackage E p update insecure g = (out, p', g')"
  shows "downloadCache g' = downloadCache g"
proof (cases "locate_root E p insecure g")
  case (Pair x g1)
  from locate_root_state [OF Pair]
  have t1: "downloadCache g1 = downloadCache g"
    by (auto simp: log_event_def)
  show ?thesis
  proof (cases x)
    case (Inl a)
    with Pair t1 assms show ?thesis by (auto simp: downloadPackage_def)
  next
    case (Inr b)
    obtain r p1 where b: "b = (r, p1)" by (cases b)
    let ?g3 = "g1\<lparr>repoPackages := (repoPackages g1)(ImportPath p1 \<mapsto> r),
                  downloadRootCache := (downloadRootCache g1)(dir r \<mapsto> r)\<rparr>"
    obtain out4 g4 where c: "checkout_new E r ?g3 = (out4, g4)"
      by (cases "checkout_new E r ?g3") auto
    from checkout_new_downloadCache [OF c] t1
    have "downloadCache g4 = downloadCache g" by simp
    with Pair Inr b c t1 assms show ?thesis
      by (auto simp: downloadPackage_def Let_def and_then_def split: if_splits)
  qed
qed

lemma download_keeps_cached:
  "download n E path parent stk update insecure single g = Some (out, stk', g') \<Longrightarrow>
     downloadCache g k \<Longrightarrow> downloadCache g' k"
proof (rule download_invariant [where I = "\<lambda>g. downloadCache g k"])
  show "\<And>p u i g out p' g'. downloadPackage E p u i g = (out, p', g') \<Longrightarrow>
      downloadCache g k \<Longrightarrow> downloadCache g' k"
    by (simp add: downloadPackage_downloadCache)
qed (simp_all add: log_event_def)

lemma reaches_keeps_cached:
  "reaches E g0 g \<Longrightarrow> downloadCache g0 k \<Longrightarrow> downloadCache g k"
proof (induction rule: reaches.induct)
  case reaches_refl
  then show ?case .
next
  case (reaches_Get g n path update insecure single out h g')
  from Get_state [OF reaches_Get.hyps(2)] reaches_Get.IH [OF reaches_Get.prems]
  show ?case by (auto dest: download_keeps_cached)
next
  case (reaches_download g n path parent stk update insecure single out stk' g')
  then show ?case by (auto dest: download_keeps_cached)
next
  case (reaches_downloadPackage g p update insecure dout p' g')
  then show ?case by (simp add: downloadPackage_downloadCache)
qed

lemma load1_downloadCache:
  "load1 E parent stk path uv g = (p, g1) \<Longrightarrow> downloadCache g1 = downloadCache g"
  by (auto simp: load1_def Let_def log_event_def split: option.splits prod.splits)

lemma download_marks_path:
  assumes d: "download (Suc n) E path parent stk update insecure False g = Some (out, stk', g')"
      and l: "load1 E parent stk path False g = (p, g1)"
      and nh: "hard_error p = None" and ns: "\<not> Standard p"
  shows "downloadCache g' (ImportPath p)"
proof (cases "downloadCache g1 (ImportPath p)")
  case True
  with d download_stops_guard [OF l nh, of n update insecure False] show ?thesis by simp
next
  case False
  let ?g2 = "if \<not> False then g1\<lparr>downloadCache := (downloadCache g1)(ImportPath p := True)\<rparr> else g1"
  let ?I = "\<lambda>g. downloadCache g (ImportPath p)"
  have I2: "?I ?g2" by simp
  obtain x stk3 g3 where f: "fetch_step E p (ImportPath p) parent stk update insecure ?g2 = (x, stk3, g3)"
    by (cases "fetch_step E p (ImportPath p) parent stk update insecure ?g2") auto
  have "?I g3"
  proof (rule fetch_step_invariant [where I = ?I, OF _ _ _ _ f I2])
    show "\<And>p' u i g out p'' g'. downloadPackage E p' u i g = (out, p'', g') \<Longrightarrow>
        downloadCache g (ImportPath p) \<Longrightarrow> downloadCache g' (ImportPath p)"
      by (simp add: downloadPackage_downloadCache)
  qed (simp_all add: log_event_def)
  note unf = download_proceeds [OF l nh ns False f, of n]
  show ?thesis
  proof (cases x)
    case (Inl o1)
    with d unf \<open>?I g3\<close> show ?thesis by simp
  next
    case (Inr pkgs)
    let ?rec = "\<lambda>path' p' stk' g'. download n E path' (Some p') stk' update insecure False g'"
    from d unf Inr have w: "walk_pkgs E ?rec pkgs stk3 g3 = Some (out, stk', g')" by simp
    have "\<And>path q stk g out stk' g'. ?rec path q stk g = Some (out, stk', g') \<Longrightarrow> ?I g \<Longrightarrow> ?I g'"
      by (rule download_keeps_cached)
    from walk_pkgs_invariant [of ?rec ?I, OF this w \<open>?I g3\<close>] show ?thesis .
  qed
qed

text \<open>
  Claim C2, as amended. When a call of \<open>download\<close> not in single mode has got past the
  hard-error and standard-library checks for a package, every later call on the same
  Getter whose path the loader resolves (without a hard error) to the same canonical
  \<open>ImportPath\<close>, under whatever spelling, returns \<open>nil\<close> right after its load: no
  fetch, no recursion, the stack and the state as the loader left them.
\<close>

theorem canonical_path_guard:
  assumes first: "download (Suc n1) E path1 parent1 stk1 update1 insecure1 False g0 = Some (out1, stk1', g1)"
      and nh1: "hard_error (fst (load1 E parent1 stk1 path1 False g0)) = None"
      and ns1: "\<not> Standard (fst (load1 E parent1 stk1 path1 False g0))"
      and later: "reaches E g1 g"
      and nh2: "hard_error (fst (load1 E parent2 stk2 path2 False g)) = None"
      and same: "ImportPath (fst (load1 E parent2 stk2 path2 False g))
                   = ImportPath (fst (load1 E parent1 stk1 path1 False g0))"
  shows "download (Suc n2) E path2 parent2 stk2 update2 insecure2 single2 g
           = Some (Ok, stk2, snd (load1 E parent2 stk2 path2 False g))"
proof -
  obtain p1 ga where l1: "load1 E parent1 stk1 path1 False g0 = (p1, ga)"
    by (cases "load1 E parent1 stk1 path1 False g0") auto
  obtain p2 gb where l2: "load1 E parent2 stk2 path2 False g = (p2, gb)"
    by (cases "load1 E parent2 stk2 path2 False g") auto
  from download_marks_path [OF first l1] nh1 ns1 l1
  have "downloadCache g1 (ImportPath p1)" by simp
  from reaches_keeps_cached [OF later this] have "downloadCache g (ImportPath p1)" .
  with load1_downloadCache [OF l2] same l1 l2 have "downloadCache gb (ImportPath p2)" by simp
  with download_stops_guard [OF l2, of n2 update2 insecure2 single2] nh2 l2
  show ?thesis by simp
qed

text \<open>
  In the fake world \<open>d\<close> is walked first; the later walk from \<open>./d\<close>, even with
  \<open>update\<close> set, stops at the guard.
\<close>

theorem canonical_path_guard_witness:
  "ImportPath (fst (load1 fake_env None [] ''./d'' False fetched_d))
     = ImportPath (fst (load1 fake_env None [] ''d'' False New))
   \<and> download (Suc 0) fake_env ''./d'' None [] True False False fetched_d
       = Some (Ok, [], snd (load1 fake_env None [] ''./d'' False fetched_d))"
proof -
  have "\<not> Option.is_none (download 1 fake_env ''d'' None [] False False False New)" by code_simp
  then obtain out stk' where G:
    "download (Suc 0) fake_env ''d'' None [] False False False New = Some (out, stk', fetched_d)"
    by (cases "download 1 fake_env ''d'' None [] False False False New") (auto simp: fetched_d_def)
  have nh1: "hard_error (fst (load1 fake_env None [] ''d'' False New)) = None"
    and ns1: "\<not> Standard (fst (load1 fake_env None [] ''d'' False New))"
    by code_simp+
  have nh2: "hard_error (fst (load1 fake_env None [] ''./d'' False fetched_d)) = None"
    unfolding fetched_d_def by code_simp
  have same: "ImportPath (fst (load1 fake_env None [] ''./d'' False fetched_d))
     = ImportPath (fst (load1 fake_env None [] ''d'' False New))"
    unfolding fetched_d_def by code_simp
  from canonical_path_guard [OF G nh1 ns1 reaches_refl nh2 same, of 0 True False False] same
  show ?thesis by simp
qed

text \<open>
  The claim as stated fails in single mode, which does not record the path in
  \<open>downloadCache\<close> (line 44): after a single-mode walk from \<open>d\<close>, a walk from
  \<open>./d\<close> with \<open>update\<close> set is not stopped by the guard. It calls the orchestrator
  (which finds the root directory in \<open>downloadRootCache\<close>) and loads the package a
  second time.
\<close>

theorem canonical_path_guard_counterexample:
  "(case download 1 fake_env ''d'' None [] False False True New of
      Some (_, _, g1) \<Rightarrow>
        ImportPath (fst (load1 fake_env None [] ''./d'' False g1))
          = ImportPath (fst (load1 fake_env None [] ''d'' False New))
        \<and> \<not> downloadCache g1 ''d''
        \<and> (case download 1 fake_env ''./d'' None [] True False True g1 of
              Some (out, _, g2) \<Rightarrow>
                out = Ok
                \<and> trace g2 = trace g1 @ [EvLoad ''./d'' ''/'' False, EvLoad ''d'' ''/'' False]
            | None \<Rightarrow> False)
    | None \<Rightarrow> False)"
  by code_simp


subsection \<open>Soft and hard errors\<close>

lemma checkout_new_prefix:
  "checkout_new E r g = (out, g') \<Longrightarrow> prefix (trace g) (trace g')"
  by (auto simp: checkout_new_def Let_def log_event_def split: if_splits option.splits)

lemma downloadPackage_prefix:
  assumes "downloadPackage E p update insecure g = (out, p', g')"
  shows "prefix (trace g) (trace g')"
proof (cases "locate_root E p insecure g")
  case (Pair x g1)
  from locate_root_state [OF Pair]
  have t1: "prefix (trace g) (trace g1)"
    by (auto simp: log_event_def)
  show ?thesis
  proof (cases x)
    case (Inl a)
    with Pair t1 assms show ?thesis by (auto simp: downloadPackage_def)
  next
    case (Inr b)
    obtain r p1 where b: "b = (r, p1)" by (cases b)
    let ?g3 = "g1\<lparr>repoPackages := (repoPackages g1)(ImportPath p1 \<mapsto> r),
                  downloadRootCache := (downloadRootCache g1)(dir r \<mapsto> r)\<rparr>"
    obtain out4 g4 where c: "checkout_new E r ?g3 = (out4, g4)"
      by (cases "checkout_new E r ?g3") auto
    from checkout_new_prefix [OF c] t1
    have "prefix (trace g) (trace g4)" by (auto elim: prefix_order.trans)
    with Pair Inr b c t1 assms show ?thesis
      by (auto simp: downloadPackage_def Let_def and_then_def split: if_splits)
  qed
qed

lemma download_prefix:
  "download n E path parent stk update insecure single g = Some (out, stk', g') \<Longrightarrow>
     prefix t (trace g) \<Longrightarrow> prefix t (trace g')"
proof (rule download_invariant [where I = "\<lambda>g. prefix t (trace g)"])
  show "\<And>p u i g out p' g'. downloadPackage E p u i g = (out, p', g') \<Longrightarrow>
      prefix t (trace g) \<Longrightarrow> prefix t (trace g')"
    by (blast intro: prefix_order.trans downloadPackage_prefix)
qed (simp_all add: log_event_def)

lemma load1_trace:
  "load1 E parent stk path uv g = (p, g1) \<Longrightarrow>
     trace g1 = trace g @ [EvLoad path (case parent of None \<Rightarrow> ''/'' | Some par \<Rightarrow> Dir par)
                             (case parent of None \<Rightarrow> False | Some par \<Rightarrow> uv)]"
  by (auto simp: load1_def Let_def log_event_def split: option.splits prod.splits)

lemma download_first_load:
  assumes d: "download n E path parent stk update insecure single g = Some (out, stk', g')"
  shows "prefix (trace g @ [EvLoad path (case parent of None \<Rightarrow> ''/'' | Some par \<Rightarrow> Dir par) False])
           (trace g')"
proof (cases n)
  case 0
  with d show ?thesis by simp
next
  case (Suc m)
  obtain p g1 where l: "load1 E parent stk path False g = (p, g1)"
    by (cases "load1 E parent stk path False g") auto
  let ?t = "trace g @ [EvLoad path (case parent of None \<Rightarrow> ''/'' | Some par \<Rightarrow> Dir par) False]"
  let ?I = "\<lambda>g. prefix ?t (trace g)"
  from load1_trace [OF l] have I1: "?I g1" by (cases parent) auto
  have dp: "\<And>p' u i g out p'' g'. downloadPackage E p' u i g = (out, p'', g') \<Longrightarrow> ?I g \<Longrightarrow> ?I g'"
    by (blast intro: prefix_order.trans downloadPackage_prefix)
  show ?thesis
  proof (cases "hard_error p \<noteq> None \<or> Standard p \<or> downloadCache g1 (ImportPath p)")
    case True
    with d Suc download_stops_hard [OF l, of _ m update insecure single]
      download_stops_guard [OF l, of m update insecure single]
    have "g' = g1" by (cases "hard_error p") auto
    with I1 show ?thesis by simp
  next
    case False
    let ?g2 = "if \<not> single then g1\<lparr>downloadCache := (downloadCache g1)(ImportPath p := True)\<rparr> else g1"
    have I2: "?I ?g2" using I1 by simp
    obtain x stk3 g3 where f: "fetch_step E p (ImportPath p) parent stk update insecure ?g2 = (x, stk3, g3)"
      by (cases "fetch_step E p (ImportPath p) parent stk update insecure ?g2") auto
    have I3: "?I g3"
      by (rule fetch_step_invariant [where I = ?I, OF _ _ _ dp f I2]) (simp_all add: log_event_def)
    from False have nh: "hard_error p = None" and ns: "\<not> Standard p"
      and nc: "\<not> downloadCache g1 (ImportPath p)" by auto
    note unf = download_proceeds [OF l nh ns nc f, of m]
    show ?thesis
    proof (cases x)
      case (Inl o1)
      with d Suc unf I3 show ?thesis by simp
    next
      case (Inr pkgs)
      show ?thesis
      proof (cases single)
        case True
        with d Suc unf Inr I3 show ?thesis by simp
      next
        case ns: False
        let ?rec = "\<lambda>path' p' stk' g'. download m E path' (Some p') stk' update insecure False g'"
        from d Suc unf Inr ns
        have w: "walk_pkgs E ?rec pkgs stk3 g3 = Some (out, stk', g')" by simp
        have "\<And>path q stk g out stk' g'. ?rec path q stk g = Some (out, stk', g') \<Longrightarrow> ?I g \<Longrightarrow> ?I g'"
          by (rule download_prefix)
        from walk_pkgs_invariant [of ?rec ?I, OF this w I3] show ?thesis .
      qed
    qed
  qed
qed

lemma walk_loads_first_import:
  assumes imps: "Imports q = i # rest" and notC: "i \<noteq> ''C''"
      and nv: "FindVendor E (if 0 < length (Build_Imports q) then Build_Imports q ! 0 else i) = None"
      and w: "walk_pkgs E (\<lambda>path' p' stk' g'. download n E path' (Some p') stk' update insecure False g')
                (q # qs) stk g = Some (out, stk', g')"
  shows "prefix (trace g @ [EvLoad i (Dir q) False]) (trace g')"
proof -
  let ?rec = "\<lambda>path' p' stk' g'. download n E path' (Some p') stk' update insecure False g'"
  let ?I = "\<lambda>g. prefix (trace g @ [EvLoad i (Dir q) False]) (trace g)"
  let ?t = "trace g @ [EvLoad i (Dir q) False]"
  have recI: "\<And>path q stk g out stk' g'. ?rec path q stk g = Some (out, stk', g') \<Longrightarrow>
      prefix ?t (trace g) \<Longrightarrow> prefix ?t (trace g')"
    by (rule download_prefix)
  from w obtain out1 stk1 g1
    where wi: "walk_imports E ?rec q (enumerate 0 (Imports q)) stk g = Some (out1, stk1, g1)"
    by (auto split: option.splits)
  have en: "enumerate 0 (Imports q) = (0, i) # enumerate 1 rest" by (simp add: imps)
  from wi en notC nv imps obtain out2 stk2 g2
    where r: "download n E i (Some q) stk update insecure False g = Some (out2, stk2, g2)"
    by (auto simp: Let_def split: option.splits)
  from download_first_load [OF r] have p2: "prefix ?t (trace g2)" by simp
  have p1: "prefix ?t (trace g1)"
  proof (cases out2)
    case Ok
    with wi en notC nv imps r
    have "walk_imports E ?rec q (enumerate 1 rest) stk2 g2 = Some (out1, stk1, g1)"
      by (simp add: Let_def)
    from walk_imports_invariant [of ?rec "\<lambda>g. prefix ?t (trace g)", OF recI this p2]
    show ?thesis .
  next
    case (Failed e)
    with wi en notC nv imps r have "g1 = g2" by (simp add: Let_def)
    with p2 show ?thesis by simp
  next
    case (Panicked pn)
    with wi en notC nv imps r have "g1 = g2" by (simp add: Let_def)
    with p2 show ?thesis by simp
  qed
  show ?thesis
  proof (cases out1)
    case Ok
    with w wi have "walk_pkgs E ?rec qs stk1 g1 = Some (out, stk', g')" by simp
    from walk_pkgs_invariant [of ?rec "\<lambda>g. prefix ?t (trace g)", OF recI this p1]
    show ?thesis .
  next
    case (Failed e)
    with w wi p1 show ?thesis by simp
  next
    case (Panicked pn)
    with w wi p1 show ?thesis by simp
  qed
qed

lemma fetch_step_reload_error:
  assumes "Dir p = [] \<or> update"
      and "downloadPackage E p update insecure g = (Ok, p', g3)"
      and "load1 E parent stk path False
             (g3\<lparr>packageCache := ClearPackageCachePartial E (packageCache g3) [path]\<rparr>) = (q, g4)"
      and "Error q = Some e"
  shows "fetch_step E p path parent stk update insecure g = (Inl (Failed e), stk, g4)"
  using assms by (auto simp: fetch_step_def Let_def Push_def Pop_def)

text \<open>
  Claim C4, as amended. For the package \<open>p\<close> that \<open>download\<close> loads first:
  a hard error on \<open>p\<close> ends the call, which returns that error; a soft error on
  \<open>p\<close> does not end it: when the fetch step (lines 50 to 86) completes with a package
  \<open>q\<close> to process, in mode not single, the walker goes on to load the first import of
  \<open>q\<close> (one that is not \<open>C\<close> and names no vendor path) from the directory of \<open>q\<close>;
  and after a successful fetch, any error on the package loaded again, soft or hard, is
  returned to the caller.
\<close>

theorem soft_error_walk:
  assumes l: "load1 E parent stk path False g = (p, g1)"
  shows "(hard_error p = Some e \<longrightarrow>
            download (Suc n) E path parent stk update insecure single g = Some (Failed e, stk, g1))
       \<and> (Error p = Some e \<and> \<not> Hard e \<and> \<not> Standard p \<and> \<not> downloadCache g1 (ImportPath p)
            \<and> fetch_step E p (ImportPath p) parent stk update insecure
                 (g1\<lparr>downloadCache := (downloadCache g1)(ImportPath p := True)\<rparr>)
               = (Inr (q # qs), stk3, g3)
            \<and> Imports q = i # rest \<and> i \<noteq> ''C''
            \<and> FindVendor E (if 0 < length (Build_Imports q) then Build_Imports q ! 0 else i) = None
            \<and> download (Suc (Suc n)) E path parent stk update insecure False g = Some (out, stk', g')
          \<longrightarrow> prefix (trace g3 @ [EvLoad i (Dir q) False]) (trace g'))
       \<and> (hard_error p = None \<and> \<not> Standard p \<and> \<not> downloadCache g1 (ImportPath p)
            \<and> (Dir p = [] \<or> update)
            \<and> downloadPackage E p update insecure
                 (if \<not> single then g1\<lparr>downloadCache := (downloadCache g1)(ImportPath p := True)\<rparr>
                  else g1) = (Ok, p', g4)
            \<and> load1 E parent stk (ImportPath p) False
                 (g4\<lparr>packageCache := ClearPackageCachePartial E (packageCache g4) [ImportPath p]\<rparr>)
               = (q', g5)
            \<and> Error q' = Some e'
          \<longrightarrow> download (Suc n) E path parent stk update insecure single g = Some (Failed e', stk, g5))"
proof (intro conjI impI)
  assume "hard_error p = Some e"
  from download_stops_hard [OF l this]
  show "download (Suc n) E path parent stk update insecure single g = Some (Failed e, stk, g1)" .
next
  assume a: "Error p = Some e \<and> \<not> Hard e \<and> \<not> Standard p \<and> \<not> downloadCache g1 (ImportPath p)
            \<and> fetch_step E p (ImportPath p) parent stk update insecure
                 (g1\<lparr>downloadCache := (downloadCache g1)(ImportPath p := True)\<rparr>)
               = (Inr (q # qs), stk3, g3)
            \<and> Imports q = i # rest \<and> i \<noteq> ''C''
            \<and> FindVendor E (if 0 < length (Build_Imports q) then Build_Imports q ! 0 else i) = None
            \<and> download (Suc (Suc n)) E path parent stk update insecure False g = Some (out, stk', g')"
  from a have soft: "Error p = Some e" "\<not> Hard e" by blast+
  then have nh: "hard_error p = None" by (simp add: hard_error_def)
  from a have ns: "\<not> Standard p" and nc: "\<not> downloadCache g1 (ImportPath p)" by blast+
  from a have "fetch_step E p (ImportPath p) parent stk update insecure
      (g1\<lparr>downloadCache := (downloadCache g1)(ImportPath p := True)\<rparr>)
      = (Inr (q # qs), stk3, g3)" by blast
  then have f: "fetch_step E p (ImportPath p) parent stk update insecure
      (if \<not> False then g1\<lparr>downloadCache := (downloadCache g1)(ImportPath p := True)\<rparr> else g1)
      = (Inr (q # qs), stk3, g3)" by simp
  from a have i1: "Imports q = i # rest" and i2: "i \<noteq> ''C''"
    and i3: "FindVendor E (if 0 < length (Build_Imports q) then Build_Imports q ! 0 else i) = None"
    and d: "download (Suc (Suc n)) E path parent stk update insecure False g = Some (out, stk', g')"
    by blast+
  from download_proceeds [OF l nh ns nc f, of "Suc n"] d
  have w: "walk_pkgs E (\<lambda>path' p' stk' g'. download (Suc n) E path' (Some p') stk' update insecure False g')
      (q # qs) stk3 g3 = Some (out, stk', g')" by (simp del: download.simps)
  show "prefix (trace g3 @ [EvLoad i (Dir q) False]) (trace g')"
    by (rule walk_loads_first_import [OF i1 i2 i3 w])
next
  let ?g2 = "if \<not> single then g1\<lparr>downloadCache := (downloadCache g1)(ImportPath p := True)\<rparr> else g1"
  assume a: "hard_error p = None \<and> \<not> Standard p \<and> \<not> downloadCache g1 (ImportPath p)
            \<and> (Dir p = [] \<or> update)
            \<and> downloadPackage E p update insecure ?g2 = (Ok, p', g4)
            \<and> load1 E parent stk (ImportPath p) False
                 (g4\<lparr>packageCache := ClearPackageCachePartial E (packageCache g4) [ImportPath p]\<rparr>)
               = (q', g5)
            \<and> Error q' = Some e'"
  then have nh: "hard_error p = None" and ns: "\<not> Standard p"
    and nc: "\<not> downloadCache g1 (ImportPath p)" by blast+
  from a have c1: "Dir p = [] \<or> update"
    and c2: "downloadPackage E p update insecure ?g2 = (Ok, p', g4)"
    and c3: "load1 E parent stk (ImportPath p) False
                 (g4\<lparr>packageCache := ClearPackageCachePartial E (packageCache g4) [ImportPath p]\<rparr>)
               = (q', g5)"
    and c4: "Error q' = Some e'" by blast+
  have "fetch_step E p (ImportPath p) parent stk update insecure ?g2 = (Inl (Failed e'), stk, g5)"
    by (rule fetch_step_reload_error [OF c1 c2 c3 c4])
  from download_proceeds [OF l nh ns nc this, of n]
  show "download (Suc n) E path parent stk update insecure single g = Some (Failed e', stk, g5)"
    by simp
qed


text \<open>
  In the second world \<open>z\<close> has a hard error, and \<open>x\<close> a soft one and the import
  \<open>y\<close>; in the fake world \<open>e\<close> is fetched and still has a soft error when loaded
  again.
\<close>

theorem soft_error_walk_witness:
  "fst (the (download 1 local_env ''z'' None [] False False False New))
     = Failed \<lparr>ImportStack = [], Err = ''malformed import path'', Hard = True\<rparr>
   \<and> prefix [EvLoad ''x'' ''/'' False, EvLoad ''y'' ''/w/src/x'' False]
        (trace (snd (snd (the (download 2 local_env ''x'' None [] False False False New)))))
   \<and> fst (the (download 1 fake_env ''e'' None [] False False False New))
     = Failed \<lparr>ImportStack = [], Err = ''no Go files'', Hard = False\<rparr>"
proof (intro conjI)
  let ?L = "load1 local_env None [] ''z'' False New"
  have l: "?L = (fst ?L, snd ?L)" by simp
  have h: "hard_error (fst ?L)
      = Some \<lparr>ImportStack = [], Err = ''malformed import path'', Hard = True\<rparr>" by code_simp
  from soft_error_walk [OF l, of _ 0 False False False] h
  show "fst (the (download 1 local_env ''z'' None [] False False False New))
     = Failed \<lparr>ImportStack = [], Err = ''malformed import path'', Hard = True\<rparr>"
    by (simp del: download.simps)
next
  let ?L = "load1 local_env None [] ''x'' False New"
  let ?F = "fetch_step local_env (fst ?L) (ImportPath (fst ?L)) None [] False False
      ((snd ?L)\<lparr>downloadCache := (downloadCache (snd ?L))(ImportPath (fst ?L) := True)\<rparr>)"
  let ?D = "download (Suc (Suc 0)) local_env ''x'' None [] False False False New"
  let ?e = "\<lparr>ImportStack = [], Err = ''some files excluded'', Hard = False\<rparr>"
  have l: "?L = (fst ?L, snd ?L)" by simp
  have soft: "Error (fst ?L) = Some ?e" "\<not> Hard ?e" "\<not> Standard (fst ?L)"
    "\<not> downloadCache (snd ?L) (ImportPath (fst ?L))" by code_simp+
  have "\<not> isl (fst ?F)" and "projr (fst ?F) = [local_pkg ''x'']" by code_simp+
  then have f: "?F = (Inr (local_pkg ''x'' # []), fst (snd ?F), snd (snd ?F))"
    by (cases ?F, cases "fst ?F") auto
  have imps: "Imports (local_pkg ''x'') = ''y'' # []" "''y'' \<noteq> ''C''"
    "FindVendor local_env (if 0 < length (Build_Imports (local_pkg ''x''))
        then Build_Imports (local_pkg ''x'') ! 0 else ''y'') = None" by code_simp+
  have "\<not> Option.is_none ?D" by code_simp
  then have d: "?D = Some (fst (the ?D), fst (snd (the ?D)), snd (snd (the ?D)))"
    by (cases ?D) auto
  have t3: "trace (snd (snd ?F)) = [EvLoad ''x'' ''/'' False]"
    and dq: "Dir (local_pkg ''x'') = ''/w/src/x''" by code_simp+
  from soft_error_walk [OF l, of ?e 0 False False False "local_pkg ''x''" "[]" "fst (snd ?F)"
      "snd (snd ?F)" "''y''" "[]" "fst (the ?D)" "fst (snd (the ?D))" "snd (snd (the ?D))"]
    soft f imps d
  have "prefix (trace (snd (snd ?F)) @ [EvLoad ''y'' (Dir (local_pkg ''x'')) False])
      (trace (snd (snd (the ?D))))" by blast
  with t3 dq
  show "prefix [EvLoad ''x'' ''/'' False, EvLoad ''y'' ''/w/src/x'' False]
        (trace (snd (snd (the (download 2 local_env ''x'' None [] False False False New)))))"
    by (simp add: numeral_2_eq_2 del: download.simps)
next
  let ?L = "load1 fake_env None [] ''e'' False New"
  let ?g2 = "if \<not> False
      then (snd ?L)\<lparr>downloadCache := (downloadCache (snd ?L))(ImportPath (fst ?L) := True)\<rparr>
      else snd ?L"
  let ?P = "downloadPackage fake_env (fst ?L) False False ?g2"
  let ?g4 = "snd (snd ?P)"
  let ?R = "load1 fake_env None [] (ImportPath (fst ?L)) False
      (?g4\<lparr>packageCache := ClearPackageCachePartial fake_env (packageCache ?g4) [ImportPath (fst ?L)]\<rparr>)"
  let ?e = "\<lparr>ImportStack = [], Err = ''no Go files'', Hard = False\<rparr>"
  have l: "?L = (fst ?L, snd ?L)" by simp
  have pre: "hard_error (fst ?L) = None" "\<not> Standard (fst ?L)"
    "\<not> downloadCache (snd ?L) (ImportPath (fst ?L))" "Dir (fst ?L) = []" by code_simp+
  have "fst ?P = Ok" by code_simp
  then have dp: "?P = (Ok, fst (snd ?P), ?g4)" by (cases ?P) auto
  have r: "?R = (fst ?R, snd ?R)" by simp
  have er: "Error (fst ?R) = Some ?e" by code_simp
  from soft_error_walk [OF l, of _ 0 False False False _ _ _ _ _ _ _ _ _ "fst (snd ?P)" ?g4
      "fst ?R" "snd ?R" ?e] pre dp r er
  have "download (Suc 0) fake_env ''e'' None [] False False False New
      = Some (Failed ?e, [], snd ?R)" by blast
  then show "fst (the (download 1 fake_env ''e'' None [] False False False New)) = Failed ?e"
    by (simp del: download.simps)
qed

text \<open>
  The claim as stated fails at the second load: \<open>e\<close> is fetched, loaded again with
  the soft error \<open>no Go files\<close> and the import \<open>d\<close>, and \<open>download\<close> returns that
  error (line 75) without loading \<open>d\<close>.
\<close>

theorem soft_error_walk_counterexample:
  "(case download 2 fake_env ''e'' None [] False False False New of
      Some (out, stk, g) \<Rightarrow>
        out = Failed \<lparr>ImportStack = [], Err = ''no Go files'', Hard = False\<rparr>
        \<and> Imports (fake_load (trace g) ''e'') = [''d'']
        \<and> EvLoad ''d'' ''/w/src/e'' False \<notin> set (trace g)
    | None \<Rightarrow> False)"
  by code_simp



subsection \<open>The hint pass\<close>

lemma carry_hints_simps [simp]:
  "carry_hints h None = None"
  "carry_hints h (Some (Inl pn)) = Some (Inl pn)"
  "carry_hints h (Some (Inr (urls, w))) = Some (Inr (urls, w @ h))"
  by (simp_all add: carry_hints_def)

lemma carry_hints_twice: "carry_hints h (carry_hints w r) = carry_hints (w @ h) r"
  by (auto simp: carry_hints_def split: option.splits sum.splits)

lemma collect_urls_write_only:
  assumes P: "\<And>imp h. processPath n E g imp h = carry_hints h (processPath n E g imp [])"
  shows "collect_urls n E g imps urls hints = carry_hints hints (collect_urls n E g imps urls [])"
proof (induction imps arbitrary: urls hints)
  case Nil
  show ?case by simp
next
  case (Cons imp imps)
  show ?case
  proof (cases "processPath n E g imp []")
    case None
    with P [of imp hints] show ?thesis by simp
  next
    case (Some r)
    show ?thesis
    proof (cases r)
      case (Inl pn)
      with Some P [of imp hints] show ?thesis by simp
    next
      case (Inr b)
      obtain u w where b: "b = (u, w)" by (cases b)
      from Some Inr b P [of imp hints]
      have "collect_urls n E g (imp # imps) urls hints
          = collect_urls n E g imps (fold List.insert u urls) (w @ hints)" by simp
      also have "\<dots> = carry_hints (w @ hints) (collect_urls n E g imps (fold List.insert u urls) [])"
        by (rule Cons.IH)
      also have "\<dots> = carry_hints hints (carry_hints w (collect_urls n E g imps (fold List.insert u urls) []))"
        by (simp add: carry_hints_twice)
      also have "carry_hints w (collect_urls n E g imps (fold List.insert u urls) [])
          = collect_urls n E g imps (fold List.insert u urls) w"
        by (rule Cons.IH [symmetric])
      also have "collect_urls n E g imps (fold List.insert u urls) w
          = collect_urls n E g (imp # imps) urls []"
        using Some Inr b by simp
      finally show ?thesis .
    qed
  qed
qed

lemma processPath_write_only:
  "processPath n E g path hints = carry_hints hints (processPath n E g path [])"
proof (induction n arbitrary: path hints)
  case 0
  show ?case by simp
next
  case (Suc n)
  note C = collect_urls_write_only [of n E g, OF Suc.IH]
  show ?case
  proof (cases "packageCache g path")
    case None
    then show ?thesis by simp
  next
    case (Some pk)
    show ?thesis
    proof (cases "Standard pk")
      case True
      with Some show ?thesis by simp
    next
      case False
      show ?thesis
      proof (cases "collect_urls n E g (Imports pk) [] []")
        case None
        with Some False C [of "Imports pk" "[]" hints] show ?thesis by simp
      next
        case r: (Some r)
        show ?thesis
        proof (cases r)
          case (Inl pn)
          with r Some False C [of "Imports pk" "[]" hints] show ?thesis by simp
        next
          case (Inr b)
          obtain u w where b: "b = (u, w)" by (cases b)
          with r Inr Some False C [of "Imports pk" "[]" hints] show ?thesis
            by (simp add: Let_def)
        qed
      qed
    qed
  qed
qed

lemma collect_urls_returns:
  assumes "\<And>imp h. imp \<in> set imps \<Longrightarrow> processPath n E g imp h \<noteq> None"
  shows "collect_urls n E g imps urls hints \<noteq> None"
  using assms
proof (induction imps arbitrary: urls hints)
  case Nil
  show ?case by simp
next
  case (Cons imp imps)
  from Cons.prems [of imp hints] obtain r where r: "processPath n E g imp hints = Some r" by auto
  show ?case
  proof (cases r)
    case (Inl pn)
    with r show ?thesis by simp
  next
    case (Inr b)
    obtain u w where "b = (u, w)" by (cases b)
    with r Inr Cons.IH [of "fold List.insert u urls" w] Cons.prems show ?thesis by simp
  qed
qed

lemma processPath_returns:
  assumes acyclic: "\<forall>q p. packageCache g q = Some p \<longrightarrow> \<not> Standard p \<longrightarrow>
      (\<forall>i \<in> set (Imports p). rank i < rank q)"
  shows "rank path < n \<Longrightarrow> processPath n E g path hints \<noteq> None"
proof (induction n arbitrary: path hints)
  case 0
  then show ?case by simp
next
  case (Suc n)
  show ?case
  proof (cases "packageCache g path")
    case None
    then show ?thesis by simp
  next
    case (Some pk)
    show ?thesis
    proof (cases "Standard pk")
      case True
      with Some show ?thesis by simp
    next
      case False
      with acyclic Some have "\<forall>i \<in> set (Imports pk). rank i < rank path" by blast
      with Suc.prems have "\<And>imp h. imp \<in> set (Imports pk) \<Longrightarrow> processPath n E g imp h \<noteq> None"
        by (intro Suc.IH) auto
      from collect_urls_returns [of "Imports pk" n E g "[]" hints, OF this]
      obtain r where "collect_urls n E g (Imports pk) [] hints = Some r" by auto
      with Some False show ?thesis
        by (auto simp: Let_def split: sum.splits option.splits prod.splits)
    qed
  qed
qed

lemma processPath_cycle:
  "x = ''a'' \<or> x = ''b'' \<Longrightarrow> processPath n E cycle x hints = None"
proof (induction n arbitrary: x hints)
  case 0
  show ?case by simp
next
  case (Suc n)
  from Suc.prems show ?case
  proof
    assume "x = ''a''"
    with Suc.IH [of "''b''"] show ?thesis
      by (simp add: cycle_def hint_pkg_def local_pkg_def)
  next
    assume "x = ''b''"
    with Suc.IH [of "''a''"] show ?thesis
      by (simp add: cycle_def hint_pkg_def local_pkg_def)
  qed
qed

text \<open>
  Claim C5, as amended. \<open>processPath\<close> is not memoized: it only adds to \<open>hints\<close> and
  what it computes does not depend on the writes made before, so a path is computed
  again each time it is reached. The pass ends (with a result or with the panic of
  claim C10) on every package cache whose import relation among the cached packages
  outside the standard library is acyclic, here given by a rank that every import
  lowers; on the cycle \<open>a\<close>, \<open>b\<close> it does not end, whatever the fuel.
\<close>

theorem hint_pass_not_memoized:
  assumes "\<forall>q p. packageCache g q = Some p \<longrightarrow> \<not> Standard p \<longrightarrow>
      (\<forall>i \<in> set (Imports p). rank i < rank q)"
  shows "processPath (Suc (rank path)) E g path hints \<noteq> None
       \<and> processPath n E g path hints
           = (case processPath n E g path [] of
                None \<Rightarrow> None
              | Some (Inl pn) \<Rightarrow> Some (Inl pn)
              | Some (Inr (urls, w)) \<Rightarrow> Some (Inr (urls, w @ hints)))
       \<and> processPath n E cycle ''a'' hints = None"
  using processPath_returns [OF assms, of path "Suc (rank path)" E hints]
    processPath_write_only [of n E g path hints] processPath_cycle [of "''a''" n E hints]
  by (simp add: carry_hints_def del: processPath.simps)

text \<open>
  The diamond is acyclic, with \<open>a\<close> of rank 2, \<open>b\<close> and \<open>c\<close> of rank 1 and \<open>d\<close>
  of rank 0.
\<close>

theorem hint_pass_not_memoized_witness:
  "processPath (Suc (diamond_rank ''a'')) local_env diamond ''a'' [] \<noteq> None
   \<and> processPath 1 local_env cycle ''a'' [] = None"
proof -
  have "\<forall>q p. packageCache diamond q = Some p \<longrightarrow> \<not> Standard p \<longrightarrow>
      (\<forall>i \<in> set (Imports p). diamond_rank i < diamond_rank q)"
    by (auto simp: diamond_def diamond_rank_def hint_pkg_def local_pkg_def split: if_splits)
  from hint_pass_not_memoized [OF this, of "''a''" local_env "[]" 1] show ?thesis
    by (simp del: processPath.simps)
qed

text \<open>
  The claim as stated fails twice: on the diamond the hint set of \<open>d\<close> is written
  twice, once under \<open>b\<close> and once under \<open>c\<close>; on the cycle the pass does not end.
\<close>

theorem hint_pass_not_memoized_counterexample:
  "(case processPath 3 local_env diamond ''a'' [] of
      Some (Inr (urls, writes)) \<Rightarrow> map fst writes = [''a'', ''c'', ''d'', ''b'', ''d'']
    | _ \<Rightarrow> False)
   \<and> processPath 3 local_env cycle ''a'' [] = None"
  by code_simp

subsection \<open>A path missing from the package cache\<close>

text \<open>
  Claim C10 does not hold of the code: for a path with no entry in \<open>packageCache\<close>,
  \<open>processPath\<close> dereferences the nil package at line 61 (\<open>p.Standard\<close>), before the
  nil checks of lines 65 and 77.
\<close>

theorem hint_pass_nil_dereference:
  "packageCache g path = None \<Longrightarrow> processPath (Suc n) E g path hints = Some (Inl NilDereference)"
  by simp

text \<open>
  The pseudo-import \<open>C\<close> is never loaded, so it has no entry.
\<close>

theorem hint_pass_nil_dereference_witness:
  "packageCache New ''C'' = None
   \<and> processPath (Suc 0) fake_env New ''C'' [] = Some (Inl NilDereference)"
proof -
  have "packageCache New ''C'' = None" by (simp add: New_def)
  from this hint_pass_nil_dereference [OF this, of 0 fake_env "[]"] show ?thesis
    by (simp del: processPath.simps)
qed

text \<open>
  The same through \<open>Get\<close>: the walk from the cgo package \<open>g\<close> skips its import
  \<open>C\<close> (line 99), so the hint pass finds no package for it and panics after the
  checkout has been made.
\<close>

lemma Get_panics_on_cgo_package:
  "(case Get 2 fake_env ''g'' False False False New of
      Some (out, hints, s) \<Rightarrow>
        out = Panicked NilDereference \<and> hints = None
        \<and> map_option Imports (packageCache s ''g'') = Some [''C'']
        \<and> packageCache s ''C'' = None
        \<and> created (trace s) = [''/w/src/g'']
    | None \<Rightarrow> False)"
  by code_simp

end
